theory Spec2Isabelle
  imports Complex_Main "HOL-Library.Log_Nat" "HOL-Library.Word"
begin

section \<open>Numbers\<close>

text \<open>
  The numbers of the program are IEEE 754 double-precision values. Every double is a
  rational, and an arithmetic operation returns the double nearest to the exact result,
  the one with the even significand on a tie. \<open>fl\<close> is that rounding, for results that
  are zero or of a magnitude in the normal range (from \<open>2^-1022\<close> to below \<open>2^1024\<close>),
  which is where the results of the Quantizer on bytes and of the PathSimplifier on
  the points of a grid lie. A decimal literal such as \<open>0.299\<close> denotes
  \<open>fl (299 / 1000)\<close>.

  \<open>exponent x\<close> is the \<open>e\<close> with \<open>2^e \<le> x < 2^(e+1)\<close> for positive \<open>x\<close>: it is the
  difference of the bit lengths of numerator and denominator, or one less.
\<close>

definition exponent :: "rat \<Rightarrow> int" where
  "exponent x =
     (let p = fst (quotient_of x); q = snd (quotient_of x); e = bitlen p - bitlen q
      in if 2 powi e \<le> x then e else e - 1)"

text \<open>The nearest integer, the even one on a tie.\<close>

definition roundEven :: "rat \<Rightarrow> int" where
  "roundEven m =
     (let n = \<lfloor>m\<rfloor>; f = m - of_int n
      in if f < 1 / 2 then n else if f > 1 / 2 then n + 1 else if even n then n else n + 1)"

text \<open>A double has a significand of 53 bits: the unit in the last place is \<open>2^(e-52)\<close>.\<close>

definition fl :: "rat \<Rightarrow> rat" where
  "fl x =
     (if x = 0 then 0
      else let u = 2 powi (exponent \<bar>x\<bar> - 52)
           in sgn x * of_int (roundEven (\<bar>x\<bar> / u)) * u)"

section \<open>Editor parameters and their history\<close>

text \<open>
  The editor keeps its parameters in objects of type \<open>EditorState\<close> and updates them
  with \<open>Partial<EditorState>\<close> objects. An object that may lack fields is a record of
  optional fields; a field that is \<open>None\<close> is absent from the object. Entries of the
  history that the editor seeds hold every field.
\<close>

datatype FillShape = circle | square

record DmcColor =
  name :: string
  dmc :: string
  hex :: string

record EditorState =
  gridSize :: "int option"
  threshold :: "int option"
  fillShape :: "FillShape option"
  outlineOffset :: "rat option"
  selectedColor :: "DmcColor option"

text \<open>The two \<open>useState\<close> cells \<open>history\<close> and \<open>historyIndex\<close>.\<close>

record ParameterHistory =
  history :: "EditorState list"
  historyIndex :: int

text \<open>\<open>useState([])\<close> and \<open>useState(-1)\<close>.\<close>

definition initialHistory :: ParameterHistory where
  "initialHistory = \<lparr>history = [], historyIndex = -1\<rparr>"

text \<open>\<open>history[historyIndex]\<close>: \<open>undefined\<close> (here \<open>None\<close>) outside the array.\<close>

definition currentState :: "ParameterHistory \<Rightarrow> EditorState option" where
  "currentState h =
     (if 0 \<le> historyIndex h \<and> historyIndex h < int (length (history h))
      then Some (history h ! nat (historyIndex h)) else None)"

definition emptyObject :: EditorState where
  "emptyObject = \<lparr>gridSize = None, threshold = None, fillShape = None,
                   outlineOffset = None, selectedColor = None\<rparr>"

text \<open>
  The object spread \<open>{ ...currentState, ...newState }\<close>: the fields of \<open>newState\<close>
  override those of \<open>currentState\<close>; spreading \<open>undefined\<close> contributes nothing.
\<close>

definition orElse :: "'a option \<Rightarrow> 'a option \<Rightarrow> 'a option" where
  "orElse new old = (case new of Some v \<Rightarrow> Some v | None \<Rightarrow> old)"

definition spread :: "EditorState option \<Rightarrow> EditorState \<Rightarrow> EditorState" where
  "spread cur newState =
     (let c = (case cur of None \<Rightarrow> emptyObject | Some s \<Rightarrow> s) in
      \<lparr>gridSize = orElse (gridSize newState) (gridSize c),
       threshold = orElse (threshold newState) (threshold c),
       fillShape = orElse (fillShape newState) (fillShape c),
       outlineOffset = orElse (outlineOffset newState) (outlineOffset c),
       selectedColor = orElse (selectedColor newState) (selectedColor c)\<rparr>)"

text \<open>
  \<open>Array.prototype.slice(0, end)\<close>: a negative \<open>end\<close> counts from the end of the array.
\<close>

definition slice0 :: "'a list \<Rightarrow> int \<Rightarrow> 'a list" where
  "slice0 xs e =
     (if e < 0 then take (nat (int (length xs) + e)) xs else take (nat e) xs)"

text \<open>
  \<open>setState\<close>. The test \<open>JSON.stringify(nextState) === JSON.stringify(currentState)\<close>
  compares the two objects field by field: the spread keeps the key order of
  \<open>currentState\<close>, so the two strings are equal exactly when the objects hold the same
  fields with the same values, and the string of an object never equals the
  \<open>undefined\<close> that \<open>JSON.stringify(undefined)\<close> returns.
\<close>

definition setState :: "ParameterHistory \<Rightarrow> EditorState \<Rightarrow> ParameterHistory" where
  "setState h newState =
     (let nextState = spread (currentState h) newState in
      if Some nextState = currentState h then h
      else
        let newHistory = slice0 (history h) (historyIndex h + 1) @ [nextState]
        in \<lparr>history = newHistory, historyIndex = int (length newHistory) - 1\<rparr>)"

definition canUndo :: "ParameterHistory \<Rightarrow> bool" where
  "canUndo h = (historyIndex h > 0)"

definition canRedo :: "ParameterHistory \<Rightarrow> bool" where
  "canRedo h = (historyIndex h < int (length (history h)) - 1)"

definition handleUndo :: "ParameterHistory \<Rightarrow> ParameterHistory" where
  "handleUndo h = (if canUndo h then h\<lparr>historyIndex := historyIndex h - 1\<rparr> else h)"

definition handleRedo :: "ParameterHistory \<Rightarrow> ParameterHistory" where
  "handleRedo h = (if canRedo h then h\<lparr>historyIndex := historyIndex h + 1\<rparr> else h)"

text \<open>An object that holds every field of \<open>EditorState\<close>.\<close>

definition complete :: "EditorState \<Rightarrow> bool" where
  "complete s =
     (gridSize s \<noteq> None \<and> threshold s \<noteq> None \<and> fillShape s \<noteq> None \<and>
      outlineOffset s \<noteq> None \<and> selectedColor s \<noteq> None)"

definition black :: DmcColor where
  "black = \<lparr>name = ''Black'', dmc = ''#310'', hex = ''#000000''\<rparr>"

definition defaultState :: EditorState where
  "defaultState = \<lparr>gridSize = Some 32, threshold = Some 128, fillShape = Some circle,
                    outlineOffset = Some 0, selectedColor = Some black\<rparr>"

section \<open>PathSimplifier\<close>

text \<open>
  A point \<open>[x, y]\<close> of a contour is a pair; \<open>fst\<close> is \<open>p[0]\<close> and \<open>snd\<close> is \<open>p[1]\<close>.
  \<open>simplifyPath\<close> is called on the paths of the tracer, whose points are built from
  cell indices: the coordinates are integers, each held in a double. The cross product
  is computed in doubles: the four differences, the two products and the last
  difference are each rounded.
\<close>

type_synonym point = "int \<times> int"

definition cross_product :: "point \<Rightarrow> point \<Rightarrow> point \<Rightarrow> rat" where
  "cross_product p_prev p_curr p_next =
     fl (fl (fl (of_int (snd p_curr) - of_int (snd p_prev))
               * fl (of_int (fst p_next) - of_int (fst p_curr)))
         - fl (fl (of_int (fst p_curr) - of_int (fst p_prev))
                 * fl (of_int (snd p_next) - of_int (snd p_curr))))"

text \<open>
  The two tests \<open>Math.abs(cross_product) > 1e-9\<close> and \<open>Math.abs(cross_product) < 1e-9\<close>;
  \<open>1e-9\<close> is the double nearest to \<open>10^-9\<close>.
\<close>

definition aboveEps :: "rat \<Rightarrow> bool" where
  "aboveEps c = (\<bar>c\<bar> > fl (1 / 1000000000))"

definition belowEps :: "rat \<Rightarrow> bool" where
  "belowEps c = (\<bar>c\<bar> < fl (1 / 1000000000))"

text \<open>
  The loop \<open>for (i = 1; i < path.length - 1; i++)\<close>: the second argument is the rest of
  the path from \<open>path[i]\<close> on, so its first two elements are \<open>p_curr\<close> and \<open>p_next\<close>;
  \<open>p_prev\<close> is the last element of \<open>simplified\<close>, which starts as \<open>[path[0]]\<close> and is
  never empty. The loop stops in front of the last point.
\<close>

fun simplifyLoop :: "point list \<Rightarrow> point list \<Rightarrow> point list" where
  "simplifyLoop simplified (p_curr # p_next # rest) =
     simplifyLoop
       (if aboveEps (cross_product (last simplified) p_curr p_next)
        then simplified @ [p_curr] else simplified)
       (p_next # rest)"
| "simplifyLoop simplified [p_last] = simplified"
| "simplifyLoop simplified [] = simplified"

text \<open>The first closing test: \<open>simplified.pop()\<close> when the last point lies on the seam.\<close>

definition popCollinear :: "point list \<Rightarrow> point list" where
  "popCollinear simplified =
     (if length simplified \<ge> 3 \<and>
         belowEps (cross_product (simplified ! (length simplified - 2))
                     (simplified ! (length simplified - 1)) (simplified ! 0))
      then butlast simplified else simplified)"

text \<open>The second closing test: \<open>simplified.shift()\<close> when the first point lies on the seam.\<close>

definition shiftCollinear :: "point list \<Rightarrow> point list" where
  "shiftCollinear simplified =
     (if length simplified \<ge> 3 \<and>
         belowEps (cross_product (simplified ! (length simplified - 1))
                     (simplified ! 0) (simplified ! 1))
      then tl simplified else simplified)"

definition simplifyPath :: "point list \<Rightarrow> point list" where
  "simplifyPath path =
     (if length path < 3 then path
      else shiftCollinear (popCollinear
             (simplifyLoop [path ! 0] (tl path) @ [path ! (length path - 1)])))"

text \<open>
  The cross product without rounding, and the points for which the code computes it
  without rounding: with coordinates of a magnitude up to \<open>2^25\<close> the differences stay
  within \<open>2^26\<close>, the products within \<open>2^52\<close> and their difference within \<open>2^53\<close>, and
  every integer of that size is a double.
\<close>

definition cross_exact :: "point \<Rightarrow> point \<Rightarrow> point \<Rightarrow> int" where
  "cross_exact p_prev p_curr p_next =
     (snd p_curr - snd p_prev) * (fst p_next - fst p_curr)
       - (fst p_curr - fst p_prev) * (snd p_next - snd p_curr)"

definition inRange :: "point \<Rightarrow> bool" where
  "inRange p = (\<bar>fst p\<bar> \<le> 33554432 \<and> \<bar>snd p\<bar> \<le> 33554432)"

text \<open>
  A list of points turns at every inner point when no three consecutive points lie
  on one line.
\<close>

definition turning :: "point list \<Rightarrow> bool" where
  "turning s = (\<forall>i. i + 2 < length s \<longrightarrow> cross_exact (s ! i) (s ! (i + 1)) (s ! (i + 2)) \<noteq> 0)"

section \<open>Grids\<close>

text \<open>
  A grid is an array of rows, \<open>grid[y][x]\<close>. Reading a row that does not exist and
  then indexing it raises a \<open>TypeError\<close>; reading a column that does not exist in an
  existing row gives \<open>undefined\<close>, which every test of the code treats as false.
  The other exception of the program is the \<open>IndexSizeError\<close> of the canvas.
\<close>

type_synonym grid = "bool list list"

datatype error = TypeError | IndexSizeError

definition readCell :: "grid \<Rightarrow> nat \<Rightarrow> nat \<Rightarrow> error + bool" where
  "readCell g y x =
     (if y < length g then Inr (x < length (g ! y) \<and> g ! y ! x) else Inl TypeError)"

text \<open>
  The assignment \<open>grid[y][x] = true\<close>. Beyond the end of an existing row the array
  grows, and the holes in between read as \<open>undefined\<close>.
\<close>

definition writeCell :: "grid \<Rightarrow> nat \<Rightarrow> nat \<Rightarrow> error + grid" where
  "writeCell g y x =
     (if y < length g
      then Inr (g[y := (if x < length (g ! y) then (g ! y)[x := True]
                        else g ! y @ replicate (x - length (g ! y)) False @ [True])])
      else Inl TypeError)"

text \<open>A loop whose body may raise: the first error ends it.\<close>

fun foldE :: "('s \<Rightarrow> 'a \<Rightarrow> error + 's) \<Rightarrow> 'a list \<Rightarrow> 's \<Rightarrow> error + 's" where
  "foldE f [] s = Inr s"
| "foldE f (x # xs) s = (case f s x of Inl e \<Rightarrow> Inl e | Inr s' \<Rightarrow> foldE f xs s')"

section \<open>BackgroundResolver\<close>

text \<open>
  The state of the flood fill is the pair of \<open>backgroundGrid\<close> and \<open>queue\<close>; the queue
  holds pairs \<open>[y, x]\<close>. The coordinates of a neighbour may be \<open>-1\<close>, so they are
  integers.
\<close>

type_synonym fill = "grid \<times> (int \<times> int) list"

text \<open>
  One border test:
  \<open>if (!stitchGrid[y][x]) { backgroundGrid[y][x] = true; queue.push([y, x]); }\<close>
\<close>

definition seed :: "grid \<Rightarrow> fill \<Rightarrow> nat \<Rightarrow> nat \<Rightarrow> error + fill" where
  "seed stitchGrid st y x =
     (case readCell stitchGrid y x of
        Inl e \<Rightarrow> Inl e
      | Inr occupied \<Rightarrow>
          if \<not> occupied then
            (case writeCell (fst st) y x of
               Inl e \<Rightarrow> Inl e
             | Inr backgroundGrid \<Rightarrow> Inr (backgroundGrid, snd st @ [(int y, int x)]))
          else Inr st)"

text \<open>The body of the loop over \<open>y\<close>: the first and the last column.\<close>

definition seedRow :: "grid \<Rightarrow> nat \<Rightarrow> fill \<Rightarrow> nat \<Rightarrow> error + fill" where
  "seedRow stitchGrid width st y =
     (case seed stitchGrid st y 0 of
        Inl e \<Rightarrow> Inl e
      | Inr st' \<Rightarrow> if width > 1 then seed stitchGrid st' y (width - 1) else Inr st')"

text \<open>The body of the loop over \<open>x\<close>: the first and the last row.\<close>

definition seedColumn :: "grid \<Rightarrow> nat \<Rightarrow> fill \<Rightarrow> nat \<Rightarrow> error + fill" where
  "seedColumn stitchGrid height st x =
     (case seed stitchGrid st 0 x of
        Inl e \<Rightarrow> Inl e
      | Inr st' \<Rightarrow> if height > 1 then seed stitchGrid st' (height - 1) x else Inr st')"

text \<open>
  The body of \<open>for (const [ny, nx] of neighbors)\<close>. The conjunction is evaluated from
  the left, so the grids are read only at coordinates inside the bounds, and
  \<open>stitchGrid\<close> only where \<open>backgroundGrid\<close> is not yet set.
\<close>

definition visit :: "grid \<Rightarrow> nat \<Rightarrow> nat \<Rightarrow> fill \<Rightarrow> int \<times> int \<Rightarrow> error + fill" where
  "visit stitchGrid width height st n =
     (let ny = fst n; nx = snd n in
      if ny \<ge> 0 \<and> ny < int height \<and> nx \<ge> 0 \<and> nx < int width then
        (case readCell (fst st) (nat ny) (nat nx) of
           Inl e \<Rightarrow> Inl e
         | Inr marked \<Rightarrow>
             if \<not> marked then
               (case readCell stitchGrid (nat ny) (nat nx) of
                  Inl e \<Rightarrow> Inl e
                | Inr occupied \<Rightarrow>
                    if \<not> occupied then
                      (case writeCell (fst st) (nat ny) (nat nx) of
                         Inl e \<Rightarrow> Inl e
                       | Inr backgroundGrid \<Rightarrow> Inr (backgroundGrid, snd st @ [(ny, nx)]))
                    else Inr st)
             else Inr st)
      else Inr st)"

definition neighbors :: "int \<Rightarrow> int \<Rightarrow> (int \<times> int) list" where
  "neighbors y x = [(y - 1, x), (y + 1, x), (y, x - 1), (y, x + 1)]"

text \<open>
  The number of cells inside the bounds that \<open>backgroundGrid\<close> does not yet mark; it
  bounds the number of cells the fill can still push.
\<close>

definition unmarked :: "nat \<Rightarrow> nat \<Rightarrow> grid \<Rightarrow> nat" where
  "unmarked width height backgroundGrid =
     length (filter (\<lambda>(y, x). readCell backgroundGrid y x \<noteq> Inr True)
               (List.product [0..<height] [0..<width]))"

definition fillMeasure :: "nat \<Rightarrow> nat \<Rightarrow> fill \<Rightarrow> nat" where
  "fillMeasure width height st = 2 * unmarked width height (fst st) + length (snd st)"

text \<open>
  The flood fill ends: every cell it pushes was unmarked inside the bounds and is marked
  from then on, and every round takes one cell off the queue.
\<close>

lemma filter_length_mono:
  "(\<And>x. x \<in> set xs \<Longrightarrow> P x \<Longrightarrow> Q x) \<Longrightarrow> length (filter P xs) \<le> length (filter Q xs)"
  by (induction xs) auto

lemma filter_length_less:
  "(\<And>x. x \<in> set xs \<Longrightarrow> P x \<Longrightarrow> Q x) \<Longrightarrow> a \<in> set xs \<Longrightarrow> Q a \<Longrightarrow> \<not> P a
    \<Longrightarrow> length (filter P xs) < length (filter Q xs)"
proof (induction xs)
  case Nil
  then show ?case by simp
next
  case (Cons x xs)
  have m: "length (filter P xs) \<le> length (filter Q xs)"
    using Cons.prems(1) by (intro filter_length_mono) auto
  show ?case
  proof (cases "a = x")
    case True
    with Cons.prems m show ?thesis by auto
  next
    case False
    with Cons have "length (filter P xs) < length (filter Q xs)" by auto
    with Cons.prems(1) [of x] show ?thesis by auto
  qed
qed

lemma readCell_writeCell_same:
  "writeCell g y x = Inr g' \<Longrightarrow> readCell g' y x = Inr True"
  by (auto simp: writeCell_def readCell_def nth_append split: if_splits)

lemma readCell_writeCell_keeps:
  "writeCell g y x = Inr g' \<Longrightarrow> readCell g y' x' = Inr True \<Longrightarrow> readCell g' y' x' = Inr True"
  by (auto simp: writeCell_def readCell_def nth_append nth_list_update split: if_splits)

lemma unmarked_writeCell:
  assumes w: "writeCell g y x = Inr g'" and r: "readCell g y x = Inr False"
    and y: "y < height" and x: "x < width"
  shows "unmarked width height g' < unmarked width height g"
  unfolding unmarked_def
proof (rule filter_length_less [where a = "(y, x)"])
  fix c assume "c \<in> set (List.product [0..<height] [0..<width])"
    and "case c of (y, x) \<Rightarrow> readCell g' y x \<noteq> Inr True"
  then show "case c of (y, x) \<Rightarrow> readCell g y x \<noteq> Inr True"
    using readCell_writeCell_keeps [OF w] by (cases c) auto
next
  show "(y, x) \<in> set (List.product [0..<height] [0..<width])" using y x by simp
  show "case (y, x) of (y, x) \<Rightarrow> readCell g y x \<noteq> Inr True" using r by simp
  show "\<not> (case (y, x) of (y, x) \<Rightarrow> readCell g' y x \<noteq> Inr True)"
    using readCell_writeCell_same [OF w] by simp
qed

lemma visit_measure:
  "visit g width height st n = Inr st' \<Longrightarrow> fillMeasure width height st' \<le> fillMeasure width height st"
proof -
  assume v: "visit g width height st n = Inr st'"
  show ?thesis
  proof (cases "st' = st")
    case True then show ?thesis by simp
  next
    case False
    with v obtain bg' where b: "0 \<le> fst n" "fst n < int height" "0 \<le> snd n" "snd n < int width"
      and r: "readCell (fst st) (nat (fst n)) (nat (snd n)) = Inr False"
      and w: "writeCell (fst st) (nat (fst n)) (nat (snd n)) = Inr bg'"
      and s: "st' = (bg', snd st @ [(fst n, snd n)])"
      by (auto simp: visit_def Let_def split: if_splits sum.splits)
    from unmarked_writeCell [OF w r, of height width] b
    have "unmarked width height bg' < unmarked width height (fst st)" by simp
    then show ?thesis by (simp add: fillMeasure_def s)
  qed
qed

lemma foldE_visit_measure:
  "foldE (visit g width height) ns st = Inr st' \<Longrightarrow> fillMeasure width height st' \<le> fillMeasure width height st"
proof (induction ns arbitrary: st)
  case Nil
  then show ?case by simp
next
  case (Cons n ns)
  then obtain st1 where 1: "visit g width height st n = Inr st1"
    and 2: "foldE (visit g width height) ns st1 = Inr st'"
    by (auto split: sum.splits)
  from Cons.IH [OF 2] visit_measure [OF 1] show ?case by simp
qed

text \<open>
  The loop \<open>while (queue.length > 0)\<close>: \<open>queue.shift()\<close> takes the first cell, and
  its four neighbours are visited in the order up, down, left, right.
\<close>

function floodFill :: "grid \<Rightarrow> nat \<Rightarrow> nat \<Rightarrow> grid \<Rightarrow> (int \<times> int) list \<Rightarrow> error + grid" where
  "floodFill stitchGrid width height backgroundGrid queue =
     (case queue of
        [] \<Rightarrow> Inr backgroundGrid
      | c # rest \<Rightarrow>
          (case foldE (visit stitchGrid width height) (neighbors (fst c) (snd c))
                  (backgroundGrid, rest) of
             Inl e \<Rightarrow> Inl e
           | Inr st \<Rightarrow> floodFill stitchGrid width height (fst st) (snd st)))"
  by pat_completeness auto
termination
proof (relation "measure (\<lambda>(g, width, height, bg, queue). fillMeasure width height (bg, queue))")
  show "wf (measure (\<lambda>(g, width, height, bg, queue). fillMeasure width height (bg, queue)))"
    by simp
next
  fix stitchGrid :: grid and width height :: nat and backgroundGrid :: grid
    and queue :: "(int \<times> int) list" and c rest st
  assume q: "queue = c # rest"
    and f: "foldE (visit stitchGrid width height) (neighbors (fst c) (snd c)) (backgroundGrid, rest) = Inr st"
  from foldE_visit_measure [OF f]
  have "fillMeasure width height st \<le> fillMeasure width height (backgroundGrid, rest)" .
  then have "fillMeasure width height (fst st, snd st) < fillMeasure width height (backgroundGrid, queue)"
    by (simp add: fillMeasure_def q)
  then show "((stitchGrid, width, height, fst st, snd st), stitchGrid, width, height, backgroundGrid, queue)
      \<in> measure (\<lambda>(g, width, height, bg, queue). fillMeasure width height (bg, queue))"
    by simp
qed

text \<open>
  \<open>getBackgroundGrid\<close>: a grid of \<open>height\<close> rows of \<open>width\<close> cells, all false; the
  loop over the rows, the loop over the columns, and the fill.
\<close>

definition getBackgroundGrid :: "grid \<Rightarrow> nat \<Rightarrow> nat \<Rightarrow> error + grid" where
  "getBackgroundGrid stitchGrid width height =
     (case foldE (seedRow stitchGrid width) [0..<height]
             (replicate height (replicate width False), []) of
        Inl e \<Rightarrow> Inl e
      | Inr st1 \<Rightarrow>
          (case foldE (seedColumn stitchGrid height) [0..<width] st1 of
             Inl e \<Rightarrow> Inl e
           | Inr st2 \<Rightarrow> floodFill stitchGrid width height (fst st2) (snd st2)))"

section \<open>ContourTracer\<close>

text \<open>
  An edge is the object \<open>{ p1, p2 }\<close>. The sets of strings \<open>horizontalEdges\<close> and
  \<open>verticalEdges\<close> and the keys of the map \<open>pointsToEdges\<close> are strings \<open>"x,y"\<close>, which
  name the point \<open>(x, y)\<close> one to one; a set of strings is the list of its members in
  the order of insertion, which is the order in which \<open>forEach\<close> and \<open>keys()\<close> visit
  them, and so is the map, as a list of keys with their edge arrays.
\<close>

type_synonym edge = "point \<times> point"

type_synonym edgeSets = "point list \<times> point list"

type_synonym edgeMap = "(point \<times> edge list) list"

text \<open>\<open>Set.prototype.add\<close>: a member that is already there keeps its place.\<close>

definition addKey :: "point list \<Rightarrow> point \<Rightarrow> point list" where
  "addKey s k = (if k \<in> set s then s else s @ [k])"

text \<open>
  A test \<open>atBorder || backgroundGrid[y][x]\<close>: the grid is read only when the cell is
  not at the border.
\<close>

definition orRead :: "bool \<Rightarrow> grid \<Rightarrow> nat \<Rightarrow> nat \<Rightarrow> error + bool" where
  "orRead atBorder backgroundGrid y x =
     (if atBorder then Inr True else readCell backgroundGrid y x)"

text \<open>The body of the two loops over the cells: the four sides of an occupied cell.\<close>

definition cellEdges ::
  "grid \<Rightarrow> grid \<Rightarrow> nat \<Rightarrow> nat \<Rightarrow> edgeSets \<Rightarrow> nat \<Rightarrow> nat \<Rightarrow> error + edgeSets" where
  "cellEdges stitchGrid backgroundGrid width height st y x =
     (case readCell stitchGrid y x of
        Inl e \<Rightarrow> Inl e
      | Inr occupied \<Rightarrow>
          if occupied then
            (case orRead (y = 0) backgroundGrid (y - 1) x of
               Inl e \<Rightarrow> Inl e
             | Inr faceTop \<Rightarrow>
                 let h1 = (if faceTop then addKey (fst st) (int x, int y) else fst st) in
            (case orRead (int y = int height - 1) backgroundGrid (y + 1) x of
               Inl e \<Rightarrow> Inl e
             | Inr faceBottom \<Rightarrow>
                 let h2 = (if faceBottom then addKey h1 (int x, int y + 1) else h1) in
            (case orRead (x = 0) backgroundGrid y (x - 1) of
               Inl e \<Rightarrow> Inl e
             | Inr faceLeft \<Rightarrow>
                 let v1 = (if faceLeft then addKey (snd st) (int x, int y) else snd st) in
            (case orRead (int x = int width - 1) backgroundGrid y (x + 1) of
               Inl e \<Rightarrow> Inl e
             | Inr faceRight \<Rightarrow>
                 let v2 = (if faceRight then addKey v1 (int x + 1, int y) else v1)
                 in Inr (h2, v2)))))
          else Inr st)"

text \<open>
  The loops \<open>for (y = 0; y < height; y++) for (x = 0; x < width; x++)\<close>; the result
  is the pair of \<open>horizontalEdges\<close> and \<open>verticalEdges\<close>.
\<close>

definition boundaryEdges :: "grid \<Rightarrow> grid \<Rightarrow> nat \<Rightarrow> nat \<Rightarrow> error + edgeSets" where
  "boundaryEdges stitchGrid backgroundGrid width height =
     foldE (\<lambda>st y. foldE (\<lambda>st x. cellEdges stitchGrid backgroundGrid width height st y x)
                       [0..<width] st)
       [0..<height] ([], [])"

text \<open>
  \<open>addEdgeToMap\<close>: \<open>if (!pointsToEdges.has(key)) pointsToEdges.set(key, [])\<close> for both
  end points, then \<open>pointsToEdges.get(key).push(edge)\<close> for both; the key is in the
  map when its array is fetched.
\<close>

definition ensureKey :: "edgeMap \<Rightarrow> point \<Rightarrow> edgeMap" where
  "ensureKey m k = (if k \<in> set (map fst m) then m else m @ [(k, [])])"

definition pushEdge :: "edgeMap \<Rightarrow> point \<Rightarrow> edge \<Rightarrow> edgeMap" where
  "pushEdge m k e = map (\<lambda>(k', es). if k' = k then (k', es @ [e]) else (k', es)) m"

definition addEdgeToMap :: "edgeMap \<Rightarrow> point \<Rightarrow> point \<Rightarrow> edgeMap" where
  "addEdgeToMap m p1 p2 =
     (let edge = (p1, p2);
          m1 = ensureKey m p1;
          m2 = ensureKey m1 p2;
          m3 = pushEdge m2 p1 edge
      in pushEdge m3 p2 edge)"

text \<open>
  The two \<open>forEach\<close> loops: the horizontal edges from \<open>(x, y)\<close> to \<open>(x + 1, y)\<close> first,
  then the vertical edges from \<open>(x, y)\<close> to \<open>(x, y + 1)\<close>.
\<close>

definition pointsToEdges :: "edgeSets \<Rightarrow> edgeMap" where
  "pointsToEdges es =
     fold (\<lambda>(x, y) m. addEdgeToMap m (x, y) (x, y + 1)) (snd es)
       (fold (\<lambda>(x, y) m. addEdgeToMap m (x, y) (x + 1, y)) (fst es) [])"

text \<open>\<open>pointsToEdges.get(currentPointKey) || []\<close>\<close>

definition getEdges :: "edgeMap \<Rightarrow> point \<Rightarrow> edge list" where
  "getEdges m k = (case map_of m k of Some es \<Rightarrow> es | None \<Rightarrow> [])"

text \<open>
  The other end of an edge at the current point: \<open>candidateKey\<close> starts as \<open>null\<close>, and
  the test on \<open>p2\<close> comes last.
\<close>

definition candidate :: "edge \<Rightarrow> point \<Rightarrow> point option" where
  "candidate edge currentPoint =
     (let c = (if fst edge = currentPoint then Some (snd edge) else None)
      in if snd edge = currentPoint then Some (fst edge) else c)"

text \<open>
  The loop \<open>for (const edge of connectedEdges)\<close>, which stops at the first candidate
  that is not yet visited.
\<close>

fun nextPoint :: "edge list \<Rightarrow> point \<Rightarrow> point list \<Rightarrow> point option" where
  "nextPoint [] currentPoint visitedPoints = None"
| "nextPoint (edge # edges) currentPoint visitedPoints =
     (case candidate edge currentPoint of
        Some c \<Rightarrow> if c \<notin> set visitedPoints then Some c
                  else nextPoint edges currentPoint visitedPoints
      | None \<Rightarrow> nextPoint edges currentPoint visitedPoints)"

text \<open>
  The walk ends: every step visits an end point of an edge of the map that was not
  visited before.
\<close>

definition endpoints :: "edgeMap \<Rightarrow> point set" where
  "endpoints m = (\<Union>es \<in> snd ` set m. \<Union>e \<in> set es. {fst e, snd e})"

lemma finite_endpoints: "finite (endpoints m)"
  by (simp add: endpoints_def)

lemma candidate_endpoint: "candidate e c = Some n \<Longrightarrow> n = fst e \<or> n = snd e"
  by (auto simp: candidate_def Let_def split: if_splits)

lemma nextPoint_Some:
  "nextPoint es c vis = Some n \<Longrightarrow> n \<notin> set vis \<and> (\<exists>e \<in> set es. n = fst e \<or> n = snd e)"
  by (induction es) (auto split: option.splits if_splits dest: candidate_endpoint)

lemma getEdges_endpoints: "e \<in> set (getEdges m k) \<Longrightarrow> fst e \<in> endpoints m \<and> snd e \<in> endpoints m"
proof -
  assume e: "e \<in> set (getEdges m k)"
  then obtain es where "map_of m k = Some es" and es: "e \<in> set es"
    by (cases "map_of m k") (auto simp: getEdges_def)
  then have "(k, es) \<in> set m" by (simp add: map_of_SomeD)
  then have "es \<in> snd ` set m" by force
  with es show ?thesis unfolding endpoints_def by blast
qed

text \<open>
  The loop \<open>while (true)\<close>; the result is the path and the set of visited points.
\<close>

function walk :: "edgeMap \<Rightarrow> point \<Rightarrow> point list \<Rightarrow> point list \<Rightarrow> point list \<times> point list" where
  "walk m currentPoint path visitedPoints =
     (case nextPoint (getEdges m currentPoint) currentPoint visitedPoints of
        None \<Rightarrow> (path, visitedPoints)
      | Some n \<Rightarrow> walk m n (path @ [n]) (visitedPoints @ [n]))"
  by pat_completeness auto
termination
proof (relation "measure (\<lambda>(m, c, path, vis). card (endpoints m - set vis))")
  show "wf (measure (\<lambda>(m, c, path, vis). card (endpoints m - set vis)))" by simp
next
  fix m :: edgeMap and currentPoint :: point and path visitedPoints :: "point list" and n
  assume "nextPoint (getEdges m currentPoint) currentPoint visitedPoints = Some n"
  from nextPoint_Some [OF this] getEdges_endpoints
  have n: "n \<in> endpoints m - set visitedPoints" by blast
  have "endpoints m - set (visitedPoints @ [n]) = (endpoints m - set visitedPoints) - {n}"
    by auto
  moreover have "finite (endpoints m - set visitedPoints)"
    by (simp add: finite_endpoints)
  ultimately have "card (endpoints m - set (visitedPoints @ [n])) < card (endpoints m - set visitedPoints)"
    using n by (metis card_Diff1_less)
  then show "((m, n, path @ [n], visitedPoints @ [n]), m, currentPoint, path, visitedPoints)
      \<in> measure (\<lambda>(m, c, path, vis). card (endpoints m - set vis))"
    by simp
qed

text \<open>
  The body of \<open>for (const startPointKey of pointsToEdges.keys())\<close>; the state is the
  pair of \<open>visitedPoints\<close> and \<open>allPaths\<close>.
\<close>

definition tracePath :: "edgeMap \<Rightarrow> point \<Rightarrow> point list \<times> point list list \<Rightarrow> point list \<times> point list list" where
  "tracePath m startPoint st =
     (if startPoint \<in> set (fst st) then st
      else
        let r = walk m startPoint [startPoint] (fst st @ [startPoint]);
            path = fst r
        in (snd r, if length path > 1 then snd st @ [simplifyPath path] else snd st))"

definition traceAndSimplifyContours :: "grid \<Rightarrow> grid \<Rightarrow> nat \<Rightarrow> nat \<Rightarrow> error + point list list" where
  "traceAndSimplifyContours stitchGrid backgroundGrid width height =
     (case boundaryEdges stitchGrid backgroundGrid width height of
        Inl e \<Rightarrow> Inl e
      | Inr es \<Rightarrow>
          let m = pointsToEdges es
          in Inr (snd (fold (tracePath m) (map fst m) ([], []))))"

section \<open>Quantizer\<close>

text \<open>
  \<open>const gray = r * 0.299 + g * 0.587 + b * 0.114\<close>, on the channels of one sample; each
  product and each sum is rounded, and the sums associate to the left.
\<close>

definition gray :: "nat \<Rightarrow> nat \<Rightarrow> nat \<Rightarrow> rat" where
  "gray r g b =
     fl (fl (fl (of_nat r * fl (299 / 1000)) + fl (of_nat g * fl (587 / 1000)))
         + fl (of_nat b * fl (114 / 1000)))"

text \<open>The luminance \<open>0.299 R + 0.587 G + 0.114 B\<close> as an exact number.\<close>

definition luminance :: "nat \<Rightarrow> nat \<Rightarrow> nat \<Rightarrow> rat" where
  "luminance r g b = 299 / 1000 * of_nat r + 587 / 1000 * of_nat g + 114 / 1000 * of_nat b"

text \<open>The test \<open>a > 128 && gray < threshold\<close>.\<close>

definition isOccupied :: "nat \<Rightarrow> nat \<Rightarrow> nat \<Rightarrow> nat \<Rightarrow> int \<Rightarrow> bool" where
  "isOccupied r g b a thresh = (a > 128 \<and> gray r g b < of_int thresh)"

text \<open>
  \<open>imageData\<close> is a \<open>Uint8ClampedArray\<close>, four bytes per sample; beyond its end a read
  gives \<open>undefined\<close>, and every comparison with \<open>undefined\<close> or \<open>NaN\<close> is false.
\<close>

definition sample :: "8 word list \<Rightarrow> nat \<Rightarrow> nat option" where
  "sample imageData i = (if i < length imageData then Some (unat (imageData ! i)) else None)"

definition cellOccupied :: "8 word list \<Rightarrow> nat \<Rightarrow> int \<Rightarrow> nat \<Rightarrow> nat \<Rightarrow> bool" where
  "cellOccupied imageData stitchesX thresh y x =
     (let i = (y * stitchesX + x) * 4 in
      case (sample imageData i, sample imageData (i + 1), sample imageData (i + 2),
            sample imageData (i + 3)) of
        (Some r, Some g, Some b, Some a) \<Rightarrow> isOccupied r g b a thresh
      | _ \<Rightarrow> False)"

text \<open>
  \<open>const stitchesY = Math.floor(gridSize / aspectRatio)\<close>, for a positive
  \<open>aspectRatio\<close> (the quotient of the width and height of a loaded image).
\<close>

definition stitchesYOf :: "nat \<Rightarrow> rat \<Rightarrow> nat" where
  "stitchesYOf stitchesX aspectRatio = nat \<lfloor>fl (of_nat stitchesX / aspectRatio)\<rfloor>"

text \<open>
  \<open>smallCtx.getImageData(0, 0, stitchesX, stitchesY).data\<close>, on the small canvas of
  \<open>stitchesX\<close> by \<open>stitchesY\<close> pixels. The call raises an \<open>IndexSizeError\<close> when the
  width or the height of the rectangle is 0; otherwise it returns the bytes of the
  canvas, four for each pixel, row by row. What \<open>drawImage\<close> has put on the canvas is
  the platform's scaling of the image: these bytes are the input \<open>pixels\<close>.
\<close>

definition getImageData :: "8 word list \<Rightarrow> nat \<Rightarrow> nat \<Rightarrow> error + 8 word list" where
  "getImageData pixels sw sh = (if sw = 0 \<or> sh = 0 then Inl IndexSizeError else Inr pixels)"

text \<open>
  The Quantizer, from \<open>stitchesY\<close> to \<open>currentStitchGrid\<close>: the samples are read from
  the small canvas, then the grid is created, \<open>stitchesY\<close> rows of \<open>stitchesX\<close> cells, all
  false, and the two loops set \<open>currentStitchGrid[y][x] = true\<close> for the occupied cells.
  An exception of \<open>getImageData\<close> ends the computation before the grid exists.
\<close>

definition quantize :: "8 word list \<Rightarrow> nat \<Rightarrow> rat \<Rightarrow> int \<Rightarrow> error + grid" where
  "quantize pixels stitchesX aspectRatio thresh =
     (let stitchesY = stitchesYOf stitchesX aspectRatio
      in case getImageData pixels stitchesX stitchesY of
           Inl e \<Rightarrow> Inl e
         | Inr imageData \<Rightarrow>
             foldE (\<lambda>currentStitchGrid y.
                 foldE (\<lambda>currentStitchGrid x.
                     if cellOccupied imageData stitchesX thresh y x
                     then writeCell currentStitchGrid y x else Inr currentStitchGrid)
                   [0..<stitchesX] currentStitchGrid)
               [0..<stitchesY] (replicate stitchesY (replicate stitchesX False)))"

section \<open>Rasterizer and VectorExporter\<close>

text \<open>
  What the Rasterizer does to the canvas is the list of its drawing calls: a stroke of
  a closed path with the stroke colour, line width, line join and miter limit in force,
  a filled circle (\<open>arc\<close> then \<open>fill\<close>) or a filled rectangle, with the fill colour. The
  SVG document is the list of its elements with their attributes. Coordinates are
  exact rationals here; their rounding is not modelled.
\<close>

datatype LineJoin = Miter | Round | Bevel

type_synonym Path2D = "(rat \<times> rat) list"

datatype CanvasOp =
    Stroke string rat LineJoin rat Path2D
  | FillArc string rat rat rat
  | FillRect string rat rat rat rat

datatype SvgElement =
    SvgPath Path2D string rat LineJoin
  | SvgCircle rat rat rat string
  | SvgRect rat rat rat rat string

text \<open>The points of a contour path, scaled by the cell size.\<close>

definition scalePath :: "point list \<Rightarrow> rat \<Rightarrow> rat \<Rightarrow> Path2D" where
  "scalePath path sx sy = map (\<lambda>p. (of_int (fst p) * sx, of_int (snd p) * sy)) path"

text \<open>
  \<open>getBackgroundGrid\<close> followed by \<open>traceAndSimplifyContours\<close>, as both renderers call
  them.
\<close>

definition contourPaths :: "grid \<Rightarrow> nat \<Rightarrow> nat \<Rightarrow> error + point list list" where
  "contourPaths stitchGrid stitchesX stitchesY =
     (case getBackgroundGrid stitchGrid stitchesX stitchesY of
        Inl e \<Rightarrow> Inl e
      | Inr backgroundGrid \<Rightarrow>
          traceAndSimplifyContours stitchGrid backgroundGrid stitchesX stitchesY)"

text \<open>
  The \<open>Path2D\<close> of a contour path: \<open>moveTo\<close>, \<open>lineTo\<close> for every further point,
  \<open>closePath\<close>; empty for a path of fewer than two points.
\<close>

definition path2D :: "point list \<Rightarrow> rat \<Rightarrow> rat \<Rightarrow> Path2D" where
  "path2D path stitchWidth stitchHeight =
     (if length path < 2 then [] else scalePath path stitchWidth stitchHeight)"

text \<open>The fill shape of the cell \<open>(y, x)\<close> on the canvas.\<close>

definition canvasFill :: "FillShape \<Rightarrow> string \<Rightarrow> rat \<Rightarrow> rat \<Rightarrow> nat \<Rightarrow> nat \<Rightarrow> CanvasOp" where
  "canvasFill shape colorHex stitchWidth stitchHeight y x =
     (let stitchSize = min stitchWidth stitchHeight;
          circleRadius = stitchSize / 3;
          squareSize = stitchSize * 2 / 3
      in if shape = circle
         then FillArc colorHex (of_nat x * stitchWidth + stitchWidth / 2)
                (of_nat y * stitchHeight + stitchHeight / 2) circleRadius
         else FillRect colorHex (of_nat x * stitchWidth + (stitchWidth - squareSize) / 2)
                (of_nat y * stitchHeight + (stitchHeight - squareSize) / 2)
                squareSize squareSize)"

text \<open>
  The loops over the cells, which both renderers share: a shape is appended for every
  cell whose \<open>stitchGrid[y][x]\<close> is true.
\<close>

definition fillCells ::
  "grid \<Rightarrow> nat \<Rightarrow> nat \<Rightarrow> (nat \<Rightarrow> nat \<Rightarrow> 'a) \<Rightarrow> 'a list \<Rightarrow> error + 'a list" where
  "fillCells stitchGrid stitchesX stitchesY shapeAt drawn =
     foldE (\<lambda>ops y.
         foldE (\<lambda>ops x.
             case readCell stitchGrid y x of
               Inl e \<Rightarrow> Inl e
             | Inr occupied \<Rightarrow> Inr (if occupied then ops @ [shapeAt y x] else ops))
           [0..<stitchesX] ops)
       [0..<stitchesY] drawn"

text \<open>
  The drawing part of the render effect: the strokes when \<open>outlineOffset > 0\<close>, with
  \<open>lineWidth = outlineOffset * 2\<close>, \<open>lineJoin = 'miter'\<close> and \<open>miterLimit = 4\<close>, then the
  fills. The cell size is a quotient by the number of cells; where that number is 0
  no cell and no path exists, and the quotient is not used.
\<close>

definition drawPattern ::
  "grid \<Rightarrow> nat \<Rightarrow> nat \<Rightarrow> rat \<Rightarrow> rat \<Rightarrow> FillShape \<Rightarrow> rat \<Rightarrow> string \<Rightarrow> error + CanvasOp list" where
  "drawPattern currentStitchGrid stitchesX stitchesY canvasWidth canvasHeight shape offset colorHex =
     (let stitchWidth = canvasWidth / of_nat stitchesX;
          stitchHeight = canvasHeight / of_nat stitchesY
      in case (if offset > 0
               then (case contourPaths currentStitchGrid stitchesX stitchesY of
                       Inl e \<Rightarrow> Inl e
                     | Inr paths \<Rightarrow>
                         Inr (map (\<lambda>path. Stroke colorHex (offset * 2) Miter 4
                                            (path2D path stitchWidth stitchHeight)) paths))
               else Inr []) of
           Inl e \<Rightarrow> Inl e
         | Inr strokes \<Rightarrow>
             fillCells currentStitchGrid stitchesX stitchesY
               (canvasFill shape colorHex stitchWidth stitchHeight) strokes)"

text \<open>The fill shape of the cell \<open>(y, x)\<close> in the SVG document, with \<open>stitchSize = 10\<close>.\<close>

definition svgFill :: "FillShape \<Rightarrow> string \<Rightarrow> nat \<Rightarrow> nat \<Rightarrow> SvgElement" where
  "svgFill shape colorHex y x =
     (let stitchSize = 10;
          circleRadius = stitchSize / 3;
          squareSize = stitchSize * 2 / 3;
          centerX = of_nat x * stitchSize + stitchSize / 2;
          centerY = of_nat y * stitchSize + stitchSize / 2
      in if shape = circle then SvgCircle centerX centerY circleRadius colorHex
         else SvgRect (centerX - squareSize / 2) (centerY - squareSize / 2)
                squareSize squareSize colorHex)"

record SvgDocument =
  svgWidth :: nat
  svgHeight :: nat
  svgElements :: "SvgElement list"

text \<open>
  \<open>handleDownloadSvg\<close>, up to the document string: one \<open>path\<close> element per contour path
  of at least two points, with \<open>stroke-width = outlineOffset * 2\<close> and
  \<open>stroke-linejoin="round"\<close>, then the fill shapes.
\<close>

definition handleDownloadSvg ::
  "grid \<Rightarrow> nat \<Rightarrow> nat \<Rightarrow> FillShape \<Rightarrow> rat \<Rightarrow> string \<Rightarrow> error + SvgDocument" where
  "handleDownloadSvg stitchGrid stitchesX stitchesY shape offset colorHex =
     (let stitchSize = 10 in
      case (if offset > 0
            then (case contourPaths stitchGrid stitchesX stitchesY of
                    Inl e \<Rightarrow> Inl e
                  | Inr paths \<Rightarrow>
                      Inr (map (\<lambda>path. SvgPath (scalePath path (of_nat stitchSize) (of_nat stitchSize))
                                         colorHex (offset * 2) Round)
                             (filter (\<lambda>path. \<not> length path < 2) paths)))
            else Inr []) of
        Inl e \<Rightarrow> Inl e
      | Inr outline \<Rightarrow>
          (case fillCells stitchGrid stitchesX stitchesY (svgFill shape colorHex) outline of
             Inl e \<Rightarrow> Inl e
           | Inr elements \<Rightarrow>
               Inr \<lparr>svgWidth = stitchesX * stitchSize, svgHeight = stitchesY * stitchSize,
                    svgElements = elements\<rparr>))"

section \<open>Notions used in the properties\<close>

text \<open>A grid of \<open>height\<close> rows that all have \<open>width\<close> cells.\<close>

definition rectangular :: "grid \<Rightarrow> nat \<Rightarrow> nat \<Rightarrow> bool" where
  "rectangular g width height = (length g = height \<and> (\<forall>row \<in> set g. length row = width))"

text \<open>
  Cells \<open>(y, x)\<close> that share a side, and the cells that a path of unoccupied cells,
  each sharing a side with the next, joins to an unoccupied cell of the border.
\<close>

definition adjacent :: "nat \<times> nat \<Rightarrow> nat \<times> nat \<Rightarrow> bool" where
  "adjacent c d =
     ((snd d = snd c \<and> (fst d = Suc (fst c) \<or> fst c = Suc (fst d))) \<or>
      (fst d = fst c \<and> (snd d = Suc (snd c) \<or> snd c = Suc (snd d))))"

inductive reachable :: "grid \<Rightarrow> nat \<Rightarrow> nat \<Rightarrow> nat \<times> nat \<Rightarrow> bool"
  for g :: grid and width :: nat and height :: nat where
  border: "y < height \<Longrightarrow> x < width \<Longrightarrow> \<not> g ! y ! x \<Longrightarrow>
      y = 0 \<or> Suc y = height \<or> x = 0 \<or> Suc x = width \<Longrightarrow> reachable g width height (y, x)"
| step: "reachable g width height c \<Longrightarrow> fst d < height \<Longrightarrow> snd d < width \<Longrightarrow>
      \<not> g ! fst d ! snd d \<Longrightarrow> adjacent c d \<Longrightarrow> reachable g width height d"

text \<open>
  The invariant of the flood fill: the mask has the shape of the grid, every marked
  cell is unoccupied and reachable, and every queued cell is inside the grid and marked.
\<close>

definition fillInv :: "grid \<Rightarrow> nat \<Rightarrow> nat \<Rightarrow> fill \<Rightarrow> bool" where
  "fillInv g width height st =
     (rectangular (fst st) width height \<and>
      (\<forall>y < height. \<forall>x < width. fst st ! y ! x \<longrightarrow> \<not> g ! y ! x \<and> reachable g width height (y, x)) \<and>
      (\<forall>c \<in> set (snd st). 0 \<le> fst c \<and> fst c < int height \<and> 0 \<le> snd c \<and> snd c < int width \<and>
          fst st ! nat (fst c) ! nat (snd c)))"

text \<open>
  The invariant of the tracer's outer loop: no point occurs twice in the paths found
  so far, all their points are visited, and each path has at least two points.
\<close>

definition tidy :: "point list \<times> point list list \<Rightarrow> bool" where
  "tidy st = (distinct (concat (snd st)) \<and> set (concat (snd st)) \<subseteq> set (fst st) \<and>
      (\<forall>p \<in> set (snd st). 2 \<le> length p))"

text \<open>
  The keys that an occupied cell \<open>(y, x)\<close> puts into \<open>horizontalEdges\<close> for its top and
  bottom side and into \<open>verticalEdges\<close> for its left and right side.
\<close>

definition horizontalSides :: "grid \<Rightarrow> grid \<Rightarrow> nat \<Rightarrow> nat \<Rightarrow> nat \<Rightarrow> point set" where
  "horizontalSides g bg height y x =
     {p. g ! y ! x \<and>
         (p = (int x, int y) \<and> (y = 0 \<or> bg ! (y - 1) ! x) \<or>
          p = (int x, int y + 1) \<and> (Suc y = height \<or> bg ! (y + 1) ! x))}"

definition verticalSides :: "grid \<Rightarrow> grid \<Rightarrow> nat \<Rightarrow> nat \<Rightarrow> nat \<Rightarrow> point set" where
  "verticalSides g bg width y x =
     {p. g ! y ! x \<and>
         (p = (int x, int y) \<and> (x = 0 \<or> bg ! y ! (x - 1)) \<or>
          p = (int x + 1, int y) \<and> (Suc x = width \<or> bg ! y ! (x + 1)))}"

section \<open>Properties of the parameter history\<close>

lemma spread_complete: "complete a \<Longrightarrow> spread cur a = a"
  by (cases a) (auto simp: complete_def spread_def orElse_def Let_def)

text \<open>
  C6. A push whose merged parameters equal the current entry changes nothing. Any
  other push, at a cursor that is \<open>-1\<close> or an index of the history, keeps the entries
  up to the cursor, appends the merged parameters and puts the cursor on that new
  last entry. From the empty history, pushing \<open>a\<close>, pushing \<open>b\<close>, undoing and pushing
  \<open>c\<close> (complete and with \<open>b\<close> and \<open>c\<close> different from \<open>a\<close>) leaves the entries
  \<open>[a, c]\<close> with the cursor on \<open>c\<close>.
\<close>

theorem setState_push:
  "(Some (spread (currentState h) p) = currentState h \<longrightarrow> setState h p = h) \<and>
   (Some (spread (currentState h) p) \<noteq> currentState h \<longrightarrow>
      - 1 \<le> historyIndex h \<longrightarrow> historyIndex h < int (length (history h)) \<longrightarrow>
      history (setState h p) =
        take (nat (historyIndex h + 1)) (history h) @ [spread (currentState h) p] \<and>
      historyIndex (setState h p) = int (length (history (setState h p))) - 1 \<and>
      currentState (setState h p) = Some (spread (currentState h) p)) \<and>
   (complete a \<longrightarrow> complete b \<longrightarrow> complete c \<longrightarrow> a \<noteq> b \<longrightarrow> a \<noteq> c \<longrightarrow> b \<noteq> c \<longrightarrow>
      setState (handleUndo (setState (setState initialHistory a) b)) c =
        \<lparr>history = [a, c], historyIndex = 1\<rparr> \<and>
      currentState (setState (handleUndo (setState (setState initialHistory a) b)) c)
        = Some c)"
proof (intro conjI impI)
  assume "Some (spread (currentState h) p) = currentState h"
  then show "setState h p = h" by (simp add: setState_def Let_def)
next
  assume ne: "Some (spread (currentState h) p) \<noteq> currentState h"
    and lo: "- 1 \<le> historyIndex h" and hi: "historyIndex h < int (length (history h))"
  from lo have sl: "slice0 (history h) (historyIndex h + 1)
      = take (nat (historyIndex h + 1)) (history h)"
    by (simp add: slice0_def)
  from ne sl show hist: "history (setState h p) =
      take (nat (historyIndex h + 1)) (history h) @ [spread (currentState h) p]"
    by (simp add: setState_def Let_def)
  from ne show idx: "historyIndex (setState h p) = int (length (history (setState h p))) - 1"
    by (simp add: setState_def Let_def)
  from lo hi have len: "length (take (nat (historyIndex h + 1)) (history h))
      = nat (historyIndex h + 1)"
    by simp
  show "currentState (setState h p) = Some (spread (currentState h) p)"
    unfolding currentState_def idx hist using len
    by (simp add: nth_append)
next
  assume a: "complete a" and b: "complete b" and c: "complete c"
    and ab: "a \<noteq> b" and ac: "a \<noteq> c"
  have s1: "setState initialHistory a = \<lparr>history = [a], historyIndex = 0\<rparr>"
    using a by (simp add: setState_def initialHistory_def currentState_def
        spread_complete slice0_def Let_def)
  have s2: "setState \<lparr>history = [a], historyIndex = 0\<rparr> b
      = \<lparr>history = [a, b], historyIndex = 1\<rparr>"
    using b ab by (simp add: setState_def currentState_def spread_complete slice0_def Let_def)
  have s3: "handleUndo \<lparr>history = [a, b], historyIndex = 1\<rparr>
      = \<lparr>history = [a, b], historyIndex = 0\<rparr>"
    by (simp add: handleUndo_def canUndo_def)
  have s4: "setState \<lparr>history = [a, b], historyIndex = 0\<rparr> c
      = \<lparr>history = [a, c], historyIndex = 1\<rparr>"
    using c ac by (simp add: setState_def currentState_def spread_complete slice0_def Let_def)
  show "setState (handleUndo (setState (setState initialHistory a) b)) c =
        \<lparr>history = [a, c], historyIndex = 1\<rparr>"
    by (simp add: s1 s2 s3 s4)
  then show "currentState (setState (handleUndo (setState (setState initialHistory a) b)) c)
        = Some c"
    by (simp add: currentState_def)
qed

theorem setState_push_witness:
  "setState \<lparr>history = [defaultState], historyIndex = 0\<rparr> (emptyObject\<lparr>fillShape := Some circle\<rparr>)
     = \<lparr>history = [defaultState], historyIndex = 0\<rparr> \<and>
   history (setState \<lparr>history = [defaultState, defaultState\<lparr>threshold := Some 90\<rparr>],
                      historyIndex = 0\<rparr> (emptyObject\<lparr>fillShape := Some square\<rparr>))
     = [defaultState, defaultState\<lparr>fillShape := Some square\<rparr>] \<and>
   setState (handleUndo (setState (setState initialHistory defaultState)
        (defaultState\<lparr>threshold := Some 90\<rparr>))) (defaultState\<lparr>gridSize := Some 16\<rparr>)
     = \<lparr>history = [defaultState, defaultState\<lparr>gridSize := Some 16\<rparr>], historyIndex = 1\<rparr>"
proof -
  let ?h1 = "\<lparr>history = [defaultState], historyIndex = 0\<rparr>"
  let ?h2 = "\<lparr>history = [defaultState, defaultState\<lparr>threshold := Some 90\<rparr>],
             historyIndex = 0\<rparr>"
  have e1: "Some (spread (currentState ?h1) (emptyObject\<lparr>fillShape := Some circle\<rparr>))
      = currentState ?h1"
    by (simp add: currentState_def spread_def emptyObject_def defaultState_def orElse_def)
  have e2: "spread (currentState ?h2) (emptyObject\<lparr>fillShape := Some square\<rparr>)
      = defaultState\<lparr>fillShape := Some square\<rparr>"
    by (simp add: currentState_def spread_def emptyObject_def defaultState_def orElse_def)
  have n2: "Some (spread (currentState ?h2) (emptyObject\<lparr>fillShape := Some square\<rparr>))
      \<noteq> currentState ?h2"
    by (simp add: e2) (simp add: currentState_def defaultState_def)
  have c: "complete defaultState" "complete (defaultState\<lparr>threshold := Some 90\<rparr>)"
    "complete (defaultState\<lparr>gridSize := Some 16\<rparr>)"
    by (simp_all add: complete_def defaultState_def)
  have d: "defaultState \<noteq> defaultState\<lparr>threshold := Some 90\<rparr>"
    "defaultState \<noteq> defaultState\<lparr>gridSize := Some 16\<rparr>"
    "defaultState\<lparr>threshold := Some 90\<rparr> \<noteq> defaultState\<lparr>gridSize := Some 16\<rparr>"
    by (simp_all add: defaultState_def)
  from setState_push [of ?h1 "emptyObject\<lparr>fillShape := Some circle\<rparr>"] e1
  have w1: "setState ?h1 (emptyObject\<lparr>fillShape := Some circle\<rparr>) = ?h1"
    by blast
  from setState_push [of ?h2 "emptyObject\<lparr>fillShape := Some square\<rparr>"] n2
  have "history (setState ?h2 (emptyObject\<lparr>fillShape := Some square\<rparr>)) =
      take (nat (historyIndex ?h2 + 1)) (history ?h2)
        @ [spread (currentState ?h2) (emptyObject\<lparr>fillShape := Some square\<rparr>)]"
    by simp
  then have w2: "history (setState ?h2 (emptyObject\<lparr>fillShape := Some square\<rparr>))
      = [defaultState, defaultState\<lparr>fillShape := Some square\<rparr>]"
    by (simp add: e2)
  from setState_push [of _ _ defaultState "defaultState\<lparr>threshold := Some 90\<rparr>"
      "defaultState\<lparr>gridSize := Some 16\<rparr>"] c d
  have w3: "setState (handleUndo (setState (setState initialHistory defaultState)
        (defaultState\<lparr>threshold := Some 90\<rparr>))) (defaultState\<lparr>gridSize := Some 16\<rparr>)
     = \<lparr>history = [defaultState, defaultState\<lparr>gridSize := Some 16\<rparr>], historyIndex = 1\<rparr>"
    by blast
  from w1 w2 w3 show ?thesis by blast
qed

section \<open>Properties of the rounding\<close>

text \<open>
  The exponent is the right one, rounding moves a value by at most the fraction
  \<open>2^-53\<close> of it, and an integer of a magnitude up to \<open>2^53\<close> is not moved at all.
\<close>

lemma pow2_bitlen:
  assumes "0 < p"
  shows "2 powi (bitlen p - 1) \<le> rat_of_int p" and "rat_of_int p < 2 powi (bitlen p)"
proof -
  from bitlen_bounds [OF assms] have lo: "2 ^ nat (bitlen p - 1) \<le> p" and hi: "p < 2 ^ nat (bitlen p)"
    by simp_all
  from assms have b: "1 \<le> bitlen p" by (auto simp: bitlen_alt_def)
  from lo have "rat_of_int (2 ^ nat (bitlen p - 1)) \<le> rat_of_int p" by (simp only: of_int_le_iff)
  then show "2 powi (bitlen p - 1) \<le> rat_of_int p"
    using b by (simp add: power_int_nonneg_exp)
  from hi have "rat_of_int p < rat_of_int (2 ^ nat (bitlen p))" by (simp only: of_int_less_iff)
  then show "rat_of_int p < 2 powi (bitlen p)"
    using b by (simp add: power_int_nonneg_exp)
qed

lemma exponent_bounds:
  assumes x: "0 < x"
  shows "2 powi (exponent x) \<le> x" and "x < 2 powi (exponent x + 1)"
proof -
  obtain p q where pq: "quotient_of x = (p, q)" by (cases "quotient_of x")
  then have q: "0 < q" and xe: "x = of_int p / of_int q"
    by (simp_all add: quotient_of_denom_pos quotient_of_div)
  with x have p: "0 < p" by (simp add: zero_less_divide_iff)
  define e where "e = bitlen p - bitlen q"
  have ex: "exponent x = (if 2 powi e \<le> x then e else e - 1)"
    by (simp add: exponent_def pq e_def Let_def)
  note bp = pow2_bitlen [OF p] and bq = pow2_bitlen [OF q]
  have qpos: "0 < rat_of_int q" using q by simp
  have two: "(2::rat) powi k > 0" for k by (simp add: zero_less_power_int)
  have lo: "2 powi (e - 1) \<le> x"
  proof -
    have "(2::rat) powi (e - 1) = 2 powi (bitlen p - 1) / 2 powi (bitlen q)"
      unfolding e_def by (simp add: power_int_diff [symmetric] algebra_simps)
    also have "\<dots> \<le> of_int p / 2 powi (bitlen q)"
      using bp(1) two by (simp add: divide_right_mono)
    also have "\<dots> \<le> of_int p / of_int q"
    proof (rule divide_left_mono)
      show "rat_of_int q \<le> 2 powi bitlen q" using bq(2) by simp
      show "0 \<le> rat_of_int p" using p by simp
      show "0 < 2 powi bitlen q * rat_of_int q" using two qpos by (rule mult_pos_pos)
    qed
    finally show ?thesis by (simp add: xe)
  qed
  have hi: "x < 2 powi (e + 1)"
  proof -
    have "x = of_int p / of_int q" by (rule xe)
    also have "\<dots> < 2 powi (bitlen p) / of_int q"
      using bp(2) qpos by (simp add: divide_strict_right_mono)
    also have "\<dots> \<le> 2 powi (bitlen p) / 2 powi (bitlen q - 1)"
    proof (rule divide_left_mono)
      show "2 powi (bitlen q - 1) \<le> rat_of_int q" by (rule bq(1))
      show "(0::rat) \<le> 2 powi bitlen p" using two [of "bitlen p"] by simp
      show "0 < rat_of_int q * 2 powi (bitlen q - 1)" using qpos two by (rule mult_pos_pos)
    qed
    also have "\<dots> = 2 powi (e + 1)"
      unfolding e_def by (simp add: power_int_diff [symmetric] algebra_simps)
    finally show ?thesis .
  qed
  show "2 powi (exponent x) \<le> x" using lo by (simp add: ex)
  show "x < 2 powi (exponent x + 1)" using hi by (auto simp: ex not_le)
qed

lemma roundEven_error: "\<bar>of_int (roundEven m) - m\<bar> \<le> 1 / 2"
proof -
  have "of_int \<lfloor>m\<rfloor> \<le> m" "m < of_int \<lfloor>m\<rfloor> + 1" by linarith+
  then show ?thesis
    by (auto simp: roundEven_def Let_def abs_le_iff)
qed

lemma fl_error:
  assumes x: "0 \<le> x"
  shows "\<bar>fl x - x\<bar> \<le> x / 2 ^ 53"
proof (cases "x = 0")
  case True
  then show ?thesis by (simp add: fl_def)
next
  case False
  with x have pos: "0 < x" by simp
  define u :: rat where "u = 2 powi (exponent x - 52)"
  have u: "0 < u" by (simp add: u_def zero_less_power_int)
  have f: "fl x = of_int (roundEven (x / u)) * u"
    using pos by (simp add: fl_def u_def Let_def)
  have "fl x - x = (of_int (roundEven (x / u)) - x / u) * u"
    using u by (simp add: f algebra_simps)
  then have "\<bar>fl x - x\<bar> = \<bar>of_int (roundEven (x / u)) - x / u\<bar> * u"
    using u by (simp add: abs_mult)
  also have "\<dots> \<le> 1 / 2 * u"
    using roundEven_error [of "x / u"] u by (intro mult_right_mono) simp_all
  also have "\<dots> = 2 powi (exponent x) / 2 ^ 53"
  proof -
    have "(2::rat) powi (exponent x - 52) = 2 powi (exponent x) / 2 powi 52"
      by (simp add: power_int_diff)
    then show ?thesis by (simp add: u_def)
  qed
  also have "\<dots> \<le> x / 2 ^ 53"
    using exponent_bounds(1) [OF pos] by (simp add: divide_right_mono)
  finally show ?thesis .
qed

lemma roundEven_int: "roundEven (of_int k) = k"
  by (simp add: roundEven_def)

lemma fl_int_pos:
  assumes n: "0 < n" and b: "n \<le> 9007199254740992"
  shows "fl (of_int n) = of_int n"
proof -
  define x :: rat where "x = of_int n"
  have pos: "0 < x" using n by (simp add: x_def)
  have x1: "1 \<le> x" using n by (simp add: x_def)
  have xle: "x \<le> 2 powi 53" using b by (simp add: x_def)
  define e where "e = exponent x"
  from exponent_bounds [OF pos] have lo: "2 powi e \<le> x" and hi: "x < 2 powi (e + 1)"
    by (simp_all add: e_def)
  have e0: "0 \<le> e"
  proof (rule ccontr)
    assume "\<not> 0 \<le> e"
    then have "e + 1 \<le> 0" by simp
    then have "(2::rat) powi (e + 1) \<le> 2 powi 0" by (intro power_int_increasing) simp_all
    with hi x1 show False by simp
  qed
  have e53: "e \<le> 53"
  proof (rule ccontr)
    assume "\<not> e \<le> 53"
    then have "(53::int) < e" by simp
    then have "(2::rat) powi 53 < 2 powi e" by (intro power_int_strict_increasing) simp_all
    with lo xle show False by simp
  qed
  define u :: rat where "u = 2 powi (e - 52)"
  have u: "0 < u" by (simp add: u_def zero_less_power_int)
  have "\<exists>k. x / u = of_int k"
  proof (cases "e \<le> 52")
    case True
    have "x / u = x * 2 powi (52 - e)"
      unfolding u_def by (simp add: power_int_diff field_simps)
    also have "\<dots> = x * 2 ^ nat (52 - e)"
      using True by (simp add: power_int_def)
    also have "\<dots> = of_int (n * 2 ^ nat (52 - e))" by (simp add: x_def)
    finally show ?thesis by blast
  next
    case False
    with e53 have e: "e = 53" by simp
    with lo xle have "x = 2 powi 53" by simp
    then have "x / u = of_int (2 ^ 52)" by (simp add: u_def e)
    then show ?thesis by blast
  qed
  then obtain k where k: "x / u = of_int k" by blast
  have "fl x = of_int (roundEven (x / u)) * u"
    using pos by (simp add: fl_def u_def e_def Let_def)
  also have "\<dots> = x / u * u" by (simp add: k roundEven_int)
  also have "\<dots> = x" using u by simp
  finally show ?thesis by (simp add: x_def)
qed

lemma fl_minus: "fl (- x) = - fl x"
  by (simp add: fl_def Let_def)

lemma fl_int:
  assumes "\<bar>n\<bar> \<le> 9007199254740992"
  shows "fl (of_int n) = of_int n"
proof -
  consider "n = 0" | "0 < n" | "0 < - n" by linarith
  then show ?thesis
  proof cases
    case 1 then show ?thesis by (simp add: fl_def)
  next
    case 2 with assms show ?thesis by (simp add: fl_int_pos)
  next
    case 3
    with assms have "fl (of_int (- n)) = of_int (- n)" by (intro fl_int_pos) simp_all
    then show ?thesis by (simp add: fl_minus)
  qed
qed

section \<open>Properties of the PathSimplifier\<close>

text \<open>
  For points in the range the cross product is the exact one, an integer, and both
  tests against \<open>1e-9\<close> are tests against zero.
\<close>

lemma fl_diff:
  assumes "\<bar>a\<bar> \<le> 33554432" and "\<bar>b\<bar> \<le> 33554432"
  shows "fl (of_int a - of_int b) = of_int (a - b)"
proof -
  from assms have "\<bar>a - b\<bar> \<le> 9007199254740992" by linarith
  then have "fl (of_int (a - b)) = of_int (a - b)" by (rule fl_int)
  then show ?thesis by simp
qed

lemma fl_prod:
  assumes a: "\<bar>a\<bar> \<le> 67108864" and b: "\<bar>b\<bar> \<le> 67108864"
  shows "fl (of_int a * of_int b) = of_int (a * b)" and "\<bar>a * b\<bar> \<le> 4503599627370496"
proof -
  have "\<bar>a\<bar> * \<bar>b\<bar> \<le> 67108864 * 67108864"
    using a b by (intro mult_mono) simp_all
  then show p: "\<bar>a * b\<bar> \<le> 4503599627370496" by (simp add: abs_mult)
  then have "\<bar>a * b\<bar> \<le> 9007199254740992" by linarith
  then have "fl (of_int (a * b)) = of_int (a * b)" by (rule fl_int)
  then show "fl (of_int a * of_int b) = of_int (a * b)" by simp
qed

lemma cross_product_exact:
  assumes a: "inRange a" and b: "inRange b" and c: "inRange c"
  shows "cross_product a b c = of_int (cross_exact a b c)"
proof -
  define d1 d2 d3 d4 where "d1 = snd b - snd a" and "d2 = fst c - fst b"
    and "d3 = fst b - fst a" and "d4 = snd c - snd b"
  have f: "fl (of_int (snd b) - of_int (snd a)) = of_int d1"
    "fl (of_int (fst c) - of_int (fst b)) = of_int d2"
    "fl (of_int (fst b) - of_int (fst a)) = of_int d3"
    "fl (of_int (snd c) - of_int (snd b)) = of_int d4"
    using a b c unfolding d1_def d2_def d3_def d4_def inRange_def by (simp_all add: fl_diff)
  have d: "\<bar>d1\<bar> \<le> 67108864" "\<bar>d2\<bar> \<le> 67108864" "\<bar>d3\<bar> \<le> 67108864" "\<bar>d4\<bar> \<le> 67108864"
    using a b c unfolding d1_def d2_def d3_def d4_def inRange_def by linarith+
  note p = fl_prod [OF d(1) d(2)] and q = fl_prod [OF d(3) d(4)]
  from p(2) q(2) have "\<bar>d1 * d2 - d3 * d4\<bar> \<le> 9007199254740992" by linarith
  then have "fl (of_int (d1 * d2 - d3 * d4)) = of_int (d1 * d2 - d3 * d4)" by (rule fl_int)
  then have e: "fl (of_int (d1 * d2) - of_int (d3 * d4)) = of_int (d1 * d2 - d3 * d4)" by simp
  have "cross_product a b c = fl (fl (of_int d1 * of_int d2) - fl (of_int d3 * of_int d4))"
    unfolding cross_product_def f by (rule refl)
  also have "\<dots> = of_int (d1 * d2 - d3 * d4)" unfolding p(1) q(1) by (rule e)
  also have "d1 * d2 - d3 * d4 = cross_exact a b c"
    by (simp add: cross_exact_def d1_def d2_def d3_def d4_def)
  finally show ?thesis .
qed

lemma fl_eps: "fl (1 / 1000000000) = 4835703278458517 / 4835703278458516698824704"
  by code_simp

lemma aboveEps_int: "aboveEps (of_int c) \<longleftrightarrow> c \<noteq> 0"
proof (cases "c = 0")
  case True then show ?thesis by (simp add: aboveEps_def fl_eps)
next
  case False
  then have "1 \<le> \<bar>c\<bar>" by linarith
  then have "(1::rat) \<le> \<bar>rat_of_int c\<bar>" by (metis of_int_abs of_int_1 of_int_le_iff)
  then show ?thesis using False by (simp add: aboveEps_def fl_eps)
qed

lemma belowEps_int: "belowEps (of_int c) \<longleftrightarrow> c = 0"
proof (cases "c = 0")
  case True then show ?thesis by (simp add: belowEps_def fl_eps)
next
  case False
  then have "1 \<le> \<bar>c\<bar>" by linarith
  then have "(1::rat) \<le> \<bar>rat_of_int c\<bar>" by (metis of_int_abs of_int_1 of_int_le_iff)
  then show ?thesis using False by (simp add: belowEps_def fl_eps)
qed

lemma aboveEps_iff:
  "inRange a \<Longrightarrow> inRange b \<Longrightarrow> inRange c \<Longrightarrow> aboveEps (cross_product a b c) \<longleftrightarrow> cross_exact a b c \<noteq> 0"
  by (simp add: cross_product_exact aboveEps_int)

lemma belowEps_iff:
  "inRange a \<Longrightarrow> inRange b \<Longrightarrow> inRange c \<Longrightarrow> belowEps (cross_product a b c) \<longleftrightarrow> cross_exact a b c = 0"
  by (simp add: cross_product_exact belowEps_int)

lemma cross_product_code [code]:
  "cross_product a b c =
     (if inRange a \<and> inRange b \<and> inRange c then of_int (cross_exact a b c)
      else fl (fl (fl (of_int (snd b) - of_int (snd a)) * fl (of_int (fst c) - of_int (fst b)))
         - fl (fl (of_int (fst b) - of_int (fst a)) * fl (of_int (snd c) - of_int (snd b)))))"
  by (simp add: cross_product_exact) (simp add: cross_product_def)

lemma aboveEps_code [code]:
  "aboveEps c = (\<bar>c\<bar> > 4835703278458517 / 4835703278458516698824704)"
  by (simp add: aboveEps_def fl_eps)

lemma belowEps_code [code]:
  "belowEps c = (\<bar>c\<bar> < 4835703278458517 / 4835703278458516698824704)"
  by (simp add: belowEps_def fl_eps)

lemma cross_extend:
  assumes A: "cross_exact a q c \<noteq> 0" and B: "cross_exact q c n = 0" and ne: "n \<noteq> q"
  shows "cross_exact a q n \<noteq> 0"
proof
  assume C: "cross_exact a q n = 0"
  obtain ax ay qx qy cx cy nx ny where
    p: "a = (ax, ay)" "q = (qx, qy)" "c = (cx, cy)" "n = (nx, ny)"
    by (metis surj_pair)
  have "(nx - qx) * cross_exact a q c
      = (cx - qx) * cross_exact a q n - (qx - ax) * cross_exact q c n"
    by (simp add: p cross_exact_def algebra_simps)
  with A B C have x: "nx = qx" by simp
  have "(ny - qy) * cross_exact a q c
      = (cy - qy) * cross_exact a q n - (qy - ay) * cross_exact q c n"
    by (simp add: p cross_exact_def algebra_simps)
  with A B C have y: "ny = qy" by simp
  from x y ne p show False by simp
qed

lemma cross_extend_back:
  assumes A: "cross_exact c n b \<noteq> 0" and B: "cross_exact q c n = 0" and ne: "q \<noteq> n"
  shows "cross_exact q n b \<noteq> 0"
proof
  assume C: "cross_exact q n b = 0"
  obtain bx "by" qx qy cx cy nx ny where
    p: "b = (bx, by)" "q = (qx, qy)" "c = (cx, cy)" "n = (nx, ny)"
    by (metis surj_pair)
  have "(nx - qx) * cross_exact c n b
      = (nx - cx) * cross_exact q n b - (bx - nx) * cross_exact q c n"
    by (simp add: p cross_exact_def algebra_simps)
  with A B C have x: "nx = qx" by simp
  have "(ny - qy) * cross_exact c n b
      = (ny - cy) * cross_exact q n b - (by - ny) * cross_exact q c n"
    by (simp add: p cross_exact_def algebra_simps)
  with A B C have y: "ny = qy" by simp
  from x y ne p show False by simp
qed

lemma turning_snoc:
  "turning (xs @ [x]) \<longleftrightarrow>
     turning xs \<and> (2 \<le> length xs \<longrightarrow>
        cross_exact (xs ! (length xs - 2)) (xs ! (length xs - 1)) x \<noteq> 0)"
proof (intro iffI conjI impI)
  assume t: "turning (xs @ [x])"
  show "turning xs"
    unfolding turning_def
  proof (intro allI impI)
    fix i assume i: "i + 2 < length xs"
    with t have "cross_exact ((xs @ [x]) ! i) ((xs @ [x]) ! (i + 1)) ((xs @ [x]) ! (i + 2)) \<noteq> 0"
      by (simp add: turning_def)
    with i show "cross_exact (xs ! i) (xs ! (i + 1)) (xs ! (i + 2)) \<noteq> 0"
      by (simp add: nth_append)
  qed
  assume l: "2 \<le> length xs"
  then obtain k where k: "length xs = k + 2" by (metis add.commute le_Suc_ex)
  from t have "cross_exact ((xs @ [x]) ! k) ((xs @ [x]) ! (k + 1)) ((xs @ [x]) ! (k + 2)) \<noteq> 0"
    unfolding turning_def using k by simp
  then show "cross_exact (xs ! (length xs - 2)) (xs ! (length xs - 1)) x \<noteq> 0"
    using k by (simp add: nth_append)
next
  assume h: "turning xs \<and> (2 \<le> length xs \<longrightarrow>
        cross_exact (xs ! (length xs - 2)) (xs ! (length xs - 1)) x \<noteq> 0)"
  show "turning (xs @ [x])"
    unfolding turning_def
  proof (intro allI impI)
    fix i assume i: "i + 2 < length (xs @ [x])"
    show "cross_exact ((xs @ [x]) ! i) ((xs @ [x]) ! (i + 1)) ((xs @ [x]) ! (i + 2)) \<noteq> 0"
    proof (cases "i + 2 < length xs")
      case True
      with h show ?thesis by (simp add: nth_append turning_def)
    next
      case False
      with i have e: "i + 2 = length xs" by simp
      then have "i = length xs - 2" "i + 1 = length xs - 1" "2 \<le> length xs" by simp_all
      with h e show ?thesis by (simp add: nth_append)
    qed
  qed
qed

lemma turning_short: "length s < 3 \<Longrightarrow> turning s"
  by (simp add: turning_def)

lemma simplifyLoop_turning:
  "acc \<noteq> [] \<Longrightarrow> rest \<noteq> [] \<Longrightarrow> distinct (last acc # rest) \<Longrightarrow> turning (acc @ [hd rest])
    \<Longrightarrow> \<forall>p \<in> set acc \<union> set rest. inRange p
    \<Longrightarrow> turning (simplifyLoop acc rest @ [last rest])"
proof (induction acc rest rule: simplifyLoop.induct)
  case (1 simplified p_curr p_next rest)
  let ?keep = "aboveEps (cross_product (last simplified) p_curr p_next)"
  let ?acc = "if ?keep then simplified @ [p_curr] else simplified"
  have rl: "inRange (last simplified)" using "1.prems"(1,5) by simp
  have rc: "inRange p_curr" and rn: "inRange p_next" using "1.prems"(5) by simp_all
  note keep = aboveEps_iff [OF rl rc rn]
  have ne: "?acc \<noteq> []" using 1 by simp
  have d: "distinct (last ?acc # p_next # rest)" using "1.prems"(3) by auto
  have r: "\<forall>p \<in> set ?acc \<union> set (p_next # rest). inRange p" using "1.prems"(5) by auto
  have t: "turning (?acc @ [hd (p_next # rest)])"
  proof (cases ?keep)
    case True
    then have c: "cross_exact (last simplified) p_curr p_next \<noteq> 0" by (simp add: keep)
    have "turning ((simplified @ [p_curr]) @ [p_next])"
      unfolding turning_snoc [of "simplified @ [p_curr]"]
      using "1.prems"(1,4) c by (simp add: last_conv_nth nth_append)
    with True show ?thesis by simp
  next
    case False
    then have c: "cross_exact (last simplified) p_curr p_next = 0" by (simp add: keep)
    from "1.prems"(4) have t0: "turning simplified" and
      t1: "2 \<le> length simplified \<longrightarrow> cross_exact (simplified ! (length simplified - 2))
          (simplified ! (length simplified - 1)) p_curr \<noteq> 0"
      by (simp_all add: turning_snoc)
    have "turning (simplified @ [p_next])"
      unfolding turning_snoc
    proof (intro conjI impI)
      show "turning simplified" by (rule t0)
      assume l: "2 \<le> length simplified"
      have lst: "simplified ! (length simplified - 1) = last simplified"
        using "1.prems"(1) by (simp add: last_conv_nth)
      from "1.prems"(3) have "p_next \<noteq> last simplified" by auto
      with t1 l c lst show "cross_exact (simplified ! (length simplified - 2))
          (simplified ! (length simplified - 1)) p_next \<noteq> 0"
        using cross_extend by metis
    qed
    with False show ?thesis by simp
  qed
  from "1.IH" [OF ne _ d t r] show ?case by simp
next
  case (2 simplified p_last)
  then show ?case by simp
next
  case (3 simplified)
  then show ?case by simp
qed

lemma simplifyLoop_fixed:
  "acc \<noteq> [] \<Longrightarrow> turning (acc @ rest) \<Longrightarrow> \<forall>p \<in> set acc \<union> set rest. inRange p
    \<Longrightarrow> simplifyLoop acc rest = acc @ butlast rest"
proof (induction acc rest rule: simplifyLoop.induct)
  case (1 simplified p_curr p_next rest)
  have rl: "inRange (last simplified)" using "1.prems"(1,3) by simp
  have rc: "inRange p_curr" and rn: "inRange p_next" using "1.prems"(3) by simp_all
  note keep = aboveEps_iff [OF rl rc rn]
  have "length simplified - 1 + 2 < length (simplified @ p_curr # p_next # rest)"
    using "1.prems"(1) by simp
  with "1.prems"(2) have "cross_exact ((simplified @ p_curr # p_next # rest) ! (length simplified - 1))
     ((simplified @ p_curr # p_next # rest) ! (length simplified - 1 + 1))
     ((simplified @ p_curr # p_next # rest) ! (length simplified - 1 + 2)) \<noteq> 0"
    unfolding turning_def by blast
  moreover have "length simplified - 1 + 1 = length simplified"
     "length simplified - 1 + 2 = Suc (length simplified)" using "1.prems"(1)
    by (cases simplified; simp)+
  ultimately have k: "cross_exact (last simplified) p_curr p_next \<noteq> 0"
    using "1.prems"(1) by (simp add: nth_append last_conv_nth)
  from "1.prems"(2) have t: "turning ((simplified @ [p_curr]) @ p_next # rest)" by simp
  have r: "\<forall>p \<in> set (simplified @ [p_curr]) \<union> set (p_next # rest). inRange p"
    using "1.prems"(3) by auto
  from k have e: "(if aboveEps (cross_product (last simplified) p_curr p_next)
        then simplified @ [p_curr] else simplified) = simplified @ [p_curr]"
    by (simp add: keep)
  have "simplifyLoop (simplified @ [p_curr]) (p_next # rest)
      = (simplified @ [p_curr]) @ butlast (p_next # rest)"
    using "1.IH" [unfolded e, OF _ t r] by simp
  then show ?case by (simp add: e)
next
  case (2 simplified p_last)
  then show ?case by simp
next
  case (3 simplified)
  then show ?case by simp
qed

lemma simplifyLoop_distinct:
  "rest \<noteq> [] \<Longrightarrow> distinct (acc @ rest) \<Longrightarrow> distinct (simplifyLoop acc rest @ [last rest])"
  by (induction acc rest rule: simplifyLoop.induct) auto

lemma simplifyLoop_length: "length acc \<le> length (simplifyLoop acc rest)"
  by (induction acc rest rule: simplifyLoop.induct) (auto split: if_splits)

lemma simplifyLoop_set: "set (simplifyLoop acc rest) \<subseteq> set acc \<union> set rest"
  by (induction acc rest rule: simplifyLoop.induct) (auto split: if_splits)

lemma turning_butlast: "turning s \<Longrightarrow> turning (butlast s)"
  by (simp add: turning_def nth_butlast)

lemma turning_tl: "turning s \<Longrightarrow> turning (tl s)"
  by (simp add: turning_def nth_tl)

lemma popCollinear_iff:
  assumes r: "\<forall>p \<in> set s. inRange p"
  shows "popCollinear s =
     (if 3 \<le> length s \<and> cross_exact (s ! (length s - 2)) (s ! (length s - 1)) (s ! 0) = 0
      then butlast s else s)"
proof (cases "3 \<le> length s")
  case False
  then show ?thesis by (simp add: popCollinear_def)
next
  case True
  from r have "i < length s \<Longrightarrow> inRange (s ! i)" for i by simp
  moreover from True have "length s - 2 < length s" "length s - 1 < length s" "0 < length s"
    by linarith+
  ultimately have "inRange (s ! (length s - 2))" "inRange (s ! (length s - 1))" "inRange (s ! 0)"
    by blast+
  then show ?thesis by (simp add: popCollinear_def belowEps_iff)
qed

lemma shiftCollinear_iff:
  assumes r: "\<forall>p \<in> set s. inRange p"
  shows "shiftCollinear s =
     (if 3 \<le> length s \<and> cross_exact (s ! (length s - 1)) (s ! 0) (s ! 1) = 0
      then tl s else s)"
proof (cases "3 \<le> length s")
  case False
  then show ?thesis by (simp add: shiftCollinear_def)
next
  case True
  from r have "i < length s \<Longrightarrow> inRange (s ! i)" for i by simp
  moreover from True have "length s - 1 < length s" "0 < length s" "1 < length s"
    by linarith+
  ultimately have "inRange (s ! (length s - 1))" "inRange (s ! 0)" "inRange (s ! 1)"
    by blast+
  then show ?thesis by (simp add: shiftCollinear_def belowEps_iff)
qed

lemma popCollinear_set: "set (popCollinear s) \<subseteq> set s"
  unfolding popCollinear_def by (simp add: subsetI in_set_butlastD)

lemma shiftCollinear_set: "set (shiftCollinear s) \<subseteq> set s"
  unfolding shiftCollinear_def by (cases s) auto

lemma popCollinear_props:
  assumes d: "distinct s" and t: "turning s" and r: "\<forall>p \<in> set s. inRange p"
  shows "distinct (popCollinear s)" and "turning (popCollinear s)"
    and "3 \<le> length (popCollinear s) \<Longrightarrow>
      cross_exact (popCollinear s ! (length (popCollinear s) - 2))
        (popCollinear s ! (length (popCollinear s) - 1)) (popCollinear s ! 0) \<noteq> 0"
proof -
  note popCollinear_def = popCollinear_iff [OF r]
  show "distinct (popCollinear s)" using d by (simp add: popCollinear_def distinct_butlast)
  show "turning (popCollinear s)" using t by (simp add: popCollinear_def turning_butlast)
  assume l: "3 \<le> length (popCollinear s)"
  show "cross_exact (popCollinear s ! (length (popCollinear s) - 2))
        (popCollinear s ! (length (popCollinear s) - 1)) (popCollinear s ! 0) \<noteq> 0"
  proof (cases "3 \<le> length s \<and>
      cross_exact (s ! (length s - 2)) (s ! (length s - 1)) (s ! 0) = 0")
    case False
    with l show ?thesis by (auto simp: popCollinear_def)
  next
    case True
    then have p: "popCollinear s = butlast s"
      and z: "cross_exact (s ! (length s - 2)) (s ! (length s - 1)) (s ! 0) = 0"
      by (simp_all add: popCollinear_def)
    from l p have "4 \<le> length s" by simp
    then obtain k where k: "length s = k + 4" by (metis add.commute le_Suc_ex)
    have "k + 1 + 2 < length s" using k by simp
    with t have "cross_exact (s ! (k + 1)) (s ! (k + 1 + 1)) (s ! (k + 1 + 2)) \<noteq> 0"
      unfolding turning_def by blast
    then have c: "cross_exact (s ! (k + 1)) (s ! (k + 2)) (s ! (k + 3)) \<noteq> 0"
      by (simp add: numeral_eq_Suc)
    from d k have n: "s ! 0 \<noteq> s ! (k + 2)"
      by (simp add: nth_eq_iff_index_eq)
    from z k have z': "cross_exact (s ! (k + 2)) (s ! (k + 3)) (s ! 0) = 0"
      by (simp add: add.commute)
    from cross_extend [OF c z' n] show ?thesis
      using p k by (simp add: nth_butlast)
  qed
qed

lemma shiftCollinear_fixed:
  assumes d: "distinct t" and t: "turning t" and r: "\<forall>p \<in> set t. inRange p"
    and c: "3 \<le> length t \<Longrightarrow>
      cross_exact (t ! (length t - 2)) (t ! (length t - 1)) (t ! 0) \<noteq> 0"
  shows "popCollinear (shiftCollinear t) = shiftCollinear t"
    and "shiftCollinear (shiftCollinear t) = shiftCollinear t"
    and "turning (shiftCollinear t)"
proof -
  have r': "\<forall>p \<in> set (tl t). inRange p" using r by (cases t) simp_all
  note shift_t = shiftCollinear_iff [OF r] and pop_t = popCollinear_iff [OF r]
    and shift_tl = shiftCollinear_iff [OF r'] and pop_tl = popCollinear_iff [OF r']
  show "turning (shiftCollinear t)" using t by (simp add: shift_t turning_tl)
  have "popCollinear (shiftCollinear t) = shiftCollinear t \<and>
    shiftCollinear (shiftCollinear t) = shiftCollinear t"
  proof (cases "3 \<le> length t \<and>
      cross_exact (t ! (length t - 1)) (t ! 0) (t ! 1) = 0")
    case False
    then have e: "shiftCollinear t = t" by (auto simp: shift_t)
    from c have "popCollinear t = t"
      by (auto simp: pop_t)
    then show ?thesis by (simp add: e)
  next
    case True
    then have e: "shiftCollinear t = tl t"
      and z: "cross_exact (t ! (length t - 1)) (t ! 0) (t ! 1) = 0"
      and l3: "3 \<le> length t"
      by (simp_all add: shift_t)
    have pop: "cross_exact (tl t ! (length (tl t) - 2)) (tl t ! (length (tl t) - 1)) (tl t ! 0) \<noteq> 0"
      if l: "3 \<le> length (tl t)"
    proof -
      from l have "4 \<le> length t" by simp
      then obtain k where k: "length t = k + 4" by (metis add.commute le_Suc_ex)
      from c k have c': "cross_exact (t ! (k + 2)) (t ! (k + 3)) (t ! 0) \<noteq> 0"
        by (simp add: add.commute)
      from z k have z': "cross_exact (t ! (k + 3)) (t ! 0) (t ! 1) = 0"
        by (simp add: add.commute)
      from d k have n: "t ! 1 \<noteq> t ! (k + 3)" by (simp add: nth_eq_iff_index_eq)
      from cross_extend [OF c' z' n] show ?thesis
        using k by (simp add: nth_tl numeral_3_eq_3 numeral_2_eq_2)
    qed
    have shift: "cross_exact (tl t ! (length (tl t) - 1)) (tl t ! 0) (tl t ! 1) \<noteq> 0"
      if l: "3 \<le> length (tl t)"
    proof -
      from l have "4 \<le> length t" by simp
      then obtain k where k: "length t = k + 4" by (metis add.commute le_Suc_ex)
      have "0 + 2 < length t" using k by simp
      with t have "cross_exact (t ! 0) (t ! (0 + 1)) (t ! (0 + 2)) \<noteq> 0"
        unfolding turning_def by blast
      then have c': "cross_exact (t ! 0) (t ! 1) (t ! 2) \<noteq> 0"
        by (simp add: numeral_2_eq_2)
      from z k have z': "cross_exact (t ! (k + 3)) (t ! 0) (t ! 1) = 0"
        by (simp add: add.commute)
      from d k have n: "t ! (k + 3) \<noteq> t ! 1" by (simp add: nth_eq_iff_index_eq)
      from cross_extend_back [OF c' z' n] show ?thesis
        using k by (simp add: nth_tl numeral_3_eq_3 numeral_2_eq_2)
    qed
    from pop have "popCollinear (tl t) = tl t"
      by (auto simp: pop_tl)
    moreover from shift have "shiftCollinear (tl t) = tl t"
      by (auto simp: shift_tl)
    ultimately show ?thesis by (simp add: e)
  qed
  then show "popCollinear (shiftCollinear t) = shiftCollinear t"
    and "shiftCollinear (shiftCollinear t) = shiftCollinear t"
    by simp_all
qed

lemma simplifyPath_turning_fixed:
  assumes t: "turning r" and p: "popCollinear r = r" and s: "shiftCollinear r = r"
    and rg: "\<forall>p \<in> set r. inRange p"
  shows "simplifyPath r = r"
proof (cases "length r < 3")
  case True
  then show ?thesis by (simp add: simplifyPath_def)
next
  case False
  then obtain a rest where r: "r = a # rest"
    by (cases r) simp_all
  with False have ne: "rest \<noteq> []" by auto
  from t have "turning ([a] @ rest)" by (simp add: r)
  moreover from rg have "\<forall>p \<in> set [a] \<union> set rest. inRange p" by (simp add: r)
  ultimately have "simplifyLoop [a] rest = [a] @ butlast rest"
    by (intro simplifyLoop_fixed) simp_all
  moreover have "r ! (length r - 1) = last rest"
    using ne by (simp add: r last_conv_nth)
  ultimately have "simplifyLoop [r ! 0] (tl r) @ [r ! (length r - 1)] = r"
    using ne by (simp add: r)
  with False p s show ?thesis by (simp add: simplifyPath_def)
qed

lemma simplifyPath_idem:
  assumes d: "distinct path" and rg: "\<forall>p \<in> set path. inRange p"
  shows "simplifyPath (simplifyPath path) = simplifyPath path"
proof (cases "length path < 3")
  case True
  then show ?thesis by (simp add: simplifyPath_def)
next
  case False
  then obtain a rest where r: "path = a # rest"
    by (cases path) simp_all
  with False have ne: "rest \<noteq> []" by auto
  let ?s = "simplifyLoop [path ! 0] (tl path) @ [path ! (length path - 1)]"
  have lst: "path ! (length path - 1) = last rest"
    using ne by (simp add: r last_conv_nth)
  have ds: "distinct ?s"
    unfolding lst using simplifyLoop_distinct [of rest "[a]"] d ne by (simp add: r)
  have rr: "\<forall>p \<in> set [a] \<union> set rest. inRange p" using rg by (simp add: r)
  have ts: "turning ?s"
    unfolding lst using simplifyLoop_turning [of "[a]" rest] d ne rr
    by (simp add: r turning_short)
  have "set (simplifyLoop [a] rest) \<subseteq> set path"
    using simplifyLoop_set [of "[a]" rest] by (simp add: r)
  moreover have "path ! (length path - 1) \<in> set path"
    by (rule nth_mem) (simp add: r)
  ultimately have ss: "set ?s \<subseteq> set path" by (simp add: r)
  with rg have rs: "\<forall>p \<in> set ?s. inRange p" by blast
  note pp = popCollinear_props [OF ds ts rs]
  have rp: "\<forall>p \<in> set (popCollinear ?s). inRange p"
    using rs popCollinear_set [of ?s] by blast
  note sf = shiftCollinear_fixed [OF pp(1) pp(2) rp]
  have rf: "\<forall>p \<in> set (shiftCollinear (popCollinear ?s)). inRange p"
    using rp shiftCollinear_set [of "popCollinear ?s"] by blast
  have e: "simplifyPath path = shiftCollinear (popCollinear ?s)"
    using False by (simp add: simplifyPath_def)
  show ?thesis unfolding e
  proof (rule simplifyPath_turning_fixed)
    show "turning (shiftCollinear (popCollinear ?s))"
      by (rule sf(3)) (rule pp(3))
    show "popCollinear (shiftCollinear (popCollinear ?s)) = shiftCollinear (popCollinear ?s)"
      by (rule sf(1)) (rule pp(3))
    show "shiftCollinear (shiftCollinear (popCollinear ?s)) = shiftCollinear (popCollinear ?s)"
      by (rule sf(2)) (rule pp(3))
    show "\<forall>p \<in> set (shiftCollinear (popCollinear ?s)). inRange p" by (rule rf)
  qed
qed

lemma popCollinear_length: "2 \<le> length s \<Longrightarrow> 2 \<le> length (popCollinear s)"
  by (auto simp: popCollinear_def)

lemma popCollinear_distinct: "distinct s \<Longrightarrow> distinct (popCollinear s)"
  by (simp add: popCollinear_def distinct_butlast)

lemma shiftCollinear_distinct: "distinct s \<Longrightarrow> distinct (shiftCollinear s)"
  by (simp add: shiftCollinear_def distinct_tl)

lemma shiftCollinear_length: "2 \<le> length s \<Longrightarrow> 2 \<le> length (shiftCollinear s)"
  by (auto simp: shiftCollinear_def)

lemma simplifyPath_length: "2 \<le> length path \<Longrightarrow> 2 \<le> length (simplifyPath path)"
proof -
  assume l: "2 \<le> length path"
  have "1 \<le> length (simplifyLoop [path ! 0] (tl path))"
    using simplifyLoop_length [of "[path ! 0]" "tl path"] by simp
  then have "2 \<le> length (simplifyLoop [path ! 0] (tl path) @ [path ! (length path - 1)])"
    by simp
  then have "2 \<le> length (shiftCollinear (popCollinear
      (simplifyLoop [path ! 0] (tl path) @ [path ! (length path - 1)])))"
    by (intro shiftCollinear_length popCollinear_length)
  with l show ?thesis by (simp add: simplifyPath_def)
qed

lemma simplifyPath_set: "set (simplifyPath path) \<subseteq> set path"
proof (cases "length path < 3")
  case True
  then show ?thesis by (simp add: simplifyPath_def)
next
  case False
  then obtain a rest where r: "path = a # rest"
    by (cases path) simp_all
  with False have ne: "rest \<noteq> []" by auto
  let ?s = "simplifyLoop [path ! 0] (tl path) @ [path ! (length path - 1)]"
  have "set (simplifyLoop [a] rest) \<subseteq> set path"
    using simplifyLoop_set [of "[a]" rest] by (simp add: r)
  moreover have "path ! (length path - 1) \<in> set path"
    by (rule nth_mem) (simp add: r)
  ultimately have "set ?s \<subseteq> set path" by (simp add: r)
  moreover have "set (shiftCollinear (popCollinear ?s)) \<subseteq> set ?s"
    by (rule subset_trans [OF shiftCollinear_set popCollinear_set])
  ultimately have "set (shiftCollinear (popCollinear ?s)) \<subseteq> set path"
    by (rule subset_trans [rotated])
  with False show ?thesis by (simp add: simplifyPath_def)
qed

lemma simplifyPath_distinct: "distinct path \<Longrightarrow> distinct (simplifyPath path)"
proof (cases "length path < 3")
  case True
  assume "distinct path"
  with True show ?thesis by (simp add: simplifyPath_def)
next
  case False
  assume d: "distinct path"
  from False obtain a rest where r: "path = a # rest"
    by (cases path) simp_all
  with False have ne: "rest \<noteq> []" by auto
  have lst: "path ! (length path - 1) = last rest"
    using ne by (simp add: r last_conv_nth)
  have "distinct (simplifyLoop [path ! 0] (tl path) @ [path ! (length path - 1)])"
    unfolding lst using simplifyLoop_distinct [of rest "[a]"] d ne by (simp add: r)
  then have "distinct (shiftCollinear (popCollinear
      (simplifyLoop [path ! 0] (tl path) @ [path ! (length path - 1)])))"
    by (intro shiftCollinear_distinct popCollinear_distinct)
  with False show ?thesis by (simp add: simplifyPath_def)
qed

text \<open>
  C4, as the code has it. Simplifying twice gives the same path as simplifying once
  for every path whose points are pairwise distinct and have coordinates of a
  magnitude up to \<open>2^25 = 33554432\<close>, and a path of fewer than three points is returned
  unchanged.
\<close>

theorem simplifyPath_idempotent_distinct:
  "(distinct path \<and> (\<forall>p \<in> set path. \<bar>fst p\<bar> \<le> 33554432 \<and> \<bar>snd p\<bar> \<le> 33554432) \<longrightarrow>
      simplifyPath (simplifyPath path) = simplifyPath path) \<and>
   (length path < 3 \<longrightarrow> simplifyPath path = path)"
proof (intro conjI impI)
  assume "distinct path \<and> (\<forall>p \<in> set path. \<bar>fst p\<bar> \<le> 33554432 \<and> \<bar>snd p\<bar> \<le> 33554432)"
  then have "distinct path" and "\<forall>p \<in> set path. inRange p" by (simp_all add: inRange_def)
  then show "simplifyPath (simplifyPath path) = simplifyPath path" by (rule simplifyPath_idem)
next
  assume "length path < 3"
  then show "simplifyPath path = path" by (simp add: simplifyPath_def)
qed

theorem simplifyPath_idempotent_distinct_witness:
  "distinct ([(1,0),(2,0),(2,1),(2,2),(1,2),(0,2),(0,1),(0,0)] :: point list) \<and>
   simplifyPath (simplifyPath [(1,0),(2,0),(2,1),(2,2),(1,2),(0,2),(0,1),(0,0)])
     = simplifyPath [(1,0),(2,0),(2,1),(2,2),(1,2),(0,2),(0,1),(0,0)] \<and>
   length ([(0,0),(1,0)] :: point list) < 3 \<and> simplifyPath [(0,0),(1,0)] = [(0,0),(1,0)]"
  using simplifyPath_idempotent_distinct [of "[(1,0),(2,0),(2,1),(2,2),(1,2),(0,2),(0,1),(0,0)]"]
    simplifyPath_idempotent_distinct [of "[(0,0),(1,0)]"]
  by simp

text \<open>
  A path that passes twice through the point \<open>(1,0)\<close>: the first pass keeps \<open>(1,0)\<close>
  because the path turns there towards \<open>(1,1)\<close>, drops \<open>(1,1)\<close> and the second
  \<open>(1,0)\<close>, and leaves \<open>(0,0),(1,0),(2,0)\<close> on one line; the second pass drops \<open>(1,0)\<close>.
\<close>

theorem simplifyPath_not_idempotent:
  "simplifyPath (simplifyPath [(0,0),(1,0),(1,1),(1,0),(2,0),(2,1)])
     \<noteq> simplifyPath [(0,0),(1,0),(1,1),(1,0),(2,0),(2,1)]"
  by code_simp

text \<open>
  Beyond the range the rounding shows. The four points below are distinct and no three
  of them lie on one line, but the products of the closing tests exceed \<open>2^53\<close> and are
  rounded: the first call takes the first point to lie on the seam and drops it, and
  the second call, on the three points left, drops the last.
\<close>

lemma simplifyPath_rounding:
  "simplifyPath [(-134217729,-134217728),(1,1),(2,2),(134217729,134217728)]
     = [(1,1),(2,2),(134217729,134217728)] \<and>
   simplifyPath [(1,1),(2,2),(134217729,134217728)] = [(1,1),(2,2)]"
  by code_simp

section \<open>Properties of the BackgroundResolver\<close>

lemma readCell_rect:
  "rectangular g width height \<Longrightarrow> y < height \<Longrightarrow> x < width \<Longrightarrow> readCell g y x = Inr (g ! y ! x)"
  by (simp add: rectangular_def readCell_def)

lemma writeCell_rect:
  "rectangular g width height \<Longrightarrow> y < height \<Longrightarrow> x < width \<Longrightarrow>
     writeCell g y x = Inr (g[y := (g ! y)[x := True]])"
  by (simp add: rectangular_def writeCell_def)

lemma rectangular_update:
  "rectangular g width height \<Longrightarrow> y < height \<Longrightarrow> rectangular (g[y := (g ! y)[x := True]]) width height"
  unfolding rectangular_def
  by (auto dest!: subsetD [OF set_update_subset_insert])

lemma nth_update2:
  "rectangular g width height \<Longrightarrow> y < height \<Longrightarrow> x < width \<Longrightarrow> y' < height \<Longrightarrow> x' < width \<Longrightarrow>
     g[y := (g ! y)[x := True]] ! y' ! x' = (if y' = y \<and> x' = x then True else g ! y' ! x')"
  by (auto simp: rectangular_def nth_list_update)

lemma fillInv_mark:
  assumes inv: "fillInv g width height st" and y: "y < height" and x: "x < width"
    and free: "\<not> g ! y ! x" and r: "reachable g width height (y, x)"
  shows "fillInv g width height ((fst st)[y := (fst st ! y)[x := True]], snd st @ [(int y, int x)])"
proof -
  from inv have rect: "rectangular (fst st) width height" by (simp add: fillInv_def)
  note upd = nth_update2 [OF rect y x]
  show ?thesis
    unfolding fillInv_def
  proof (intro conjI allI impI ballI)
    show "rectangular (fst ((fst st)[y := (fst st ! y)[x := True]], snd st @ [(int y, int x)])) width height"
      using rectangular_update [OF rect y] by simp
  next
    fix y' x' assume b: "y' < height" "x' < width"
      and m: "fst ((fst st)[y := (fst st ! y)[x := True]], snd st @ [(int y, int x)]) ! y' ! x'"
    show "\<not> g ! y' ! x'" using inv b m free upd [OF b]
      by (auto simp: fillInv_def split: if_splits)
    show "reachable g width height (y', x')" using inv b m r upd [OF b]
      by (auto simp: fillInv_def split: if_splits)
  next
    fix c assume c: "c \<in> set (snd ((fst st)[y := (fst st ! y)[x := True]], snd st @ [(int y, int x)]))"
    show "0 \<le> fst c" "fst c < int height" "0 \<le> snd c" "snd c < int width"
      using c inv y x by (auto simp: fillInv_def)
    then have b: "nat (fst c) < height" "nat (snd c) < width" by simp_all
    show "fst ((fst st)[y := (fst st ! y)[x := True]], snd st @ [(int y, int x)]) ! nat (fst c) ! nat (snd c)"
      using c inv upd [OF b] by (auto simp: fillInv_def)
  qed
qed

lemma seed_inv:
  assumes g: "rectangular g width height" and inv: "fillInv g width height st"
    and y: "y < height" and x: "x < width"
    and b: "y = 0 \<or> Suc y = height \<or> x = 0 \<or> Suc x = width"
  shows "\<exists>st'. seed g st y x = Inr st' \<and> fillInv g width height st'"
proof (cases "g ! y ! x")
  case True
  with inv show ?thesis by (simp add: seed_def readCell_rect [OF g y x])
next
  case False
  from inv have rect: "rectangular (fst st) width height" by (simp add: fillInv_def)
  from y x False b have "reachable g width height (y, x)" by (rule reachable.border)
  from fillInv_mark [OF inv y x False this] False show ?thesis
    by (simp add: seed_def readCell_rect [OF g y x] writeCell_rect [OF rect y x])
qed

lemma seedRow_inv:
  assumes g: "rectangular g width height" and inv: "fillInv g width height st"
    and y: "y < height" and w: "0 < width"
  shows "\<exists>st'. seedRow g width st y = Inr st' \<and> fillInv g width height st'"
proof -
  from seed_inv [OF g inv y w] obtain st1 where
    1: "seed g st y 0 = Inr st1" and i1: "fillInv g width height st1" by auto
  show ?thesis
  proof (cases "width > 1")
    case False
    with 1 i1 show ?thesis by (simp add: seedRow_def)
  next
    case True
    then have "width - 1 < width" "Suc (width - 1) = width" by simp_all
    with seed_inv [OF g i1 y, of "width - 1"] obtain st2 where
      "seed g st1 y (width - 1) = Inr st2" "fillInv g width height st2" by auto
    with 1 True show ?thesis by (simp add: seedRow_def)
  qed
qed

lemma seedColumn_inv:
  assumes g: "rectangular g width height" and inv: "fillInv g width height st"
    and x: "x < width" and h: "0 < height"
  shows "\<exists>st'. seedColumn g height st x = Inr st' \<and> fillInv g width height st'"
proof -
  from seed_inv [OF g inv h x] obtain st1 where
    1: "seed g st 0 x = Inr st1" and i1: "fillInv g width height st1" by auto
  show ?thesis
  proof (cases "height > 1")
    case False
    with 1 i1 show ?thesis by (simp add: seedColumn_def)
  next
    case True
    then have "height - 1 < height" "Suc (height - 1) = height" by simp_all
    with seed_inv [OF g i1 _ x, of "height - 1"] obtain st2 where
      "seed g st1 (height - 1) x = Inr st2" "fillInv g width height st2" by auto
    with 1 True show ?thesis by (simp add: seedColumn_def)
  qed
qed

lemma foldE_inv:
  "P s \<Longrightarrow> (\<And>x s. x \<in> set xs \<Longrightarrow> P s \<Longrightarrow> \<exists>s'. f s x = Inr s' \<and> P s')
    \<Longrightarrow> \<exists>s'. foldE f xs s = Inr s' \<and> P s'"
proof (induction xs arbitrary: s)
  case Nil
  then show ?case by simp
next
  case (Cons x xs)
  from Cons.prems(2) [of x s] Cons.prems(1) obtain s1 where 1: "f s x = Inr s1" and p: "P s1"
    by auto
  from Cons.IH [OF p] Cons.prems(2) obtain s' where "foldE f xs s1 = Inr s'" "P s'"
    by auto
  with 1 show ?case by simp
qed

text \<open>A visit from a marked cell keeps the invariant and the mark of that cell.\<close>

lemma visit_inv:
  assumes g: "rectangular g width height" and inv: "fillInv g width height st"
    and cy: "cy < height" and cx: "cx < width" and m: "fst st ! cy ! cx"
    and n: "n \<in> set (neighbors (int cy) (int cx))"
  shows "\<exists>st'. visit g width height st n = Inr st' \<and> fillInv g width height st' \<and> fst st' ! cy ! cx"
proof (cases "fst n \<ge> 0 \<and> fst n < int height \<and> snd n \<ge> 0 \<and> snd n < int width")
  case False
  then have "visit g width height st n = Inr st" by (auto simp: visit_def Let_def)
  with inv m show ?thesis by blast
next
  case True
  define ny nx where "ny = nat (fst n)" and "nx = nat (snd n)"
  from True have b: "ny < height" "nx < width" and e: "n = (int ny, int nx)"
    by (auto simp: ny_def nx_def prod_eq_iff)
  from inv have rect: "rectangular (fst st) width height" by (simp add: fillInv_def)
  note rd = readCell_rect [OF rect b] readCell_rect [OF g b] writeCell_rect [OF rect b]
  show ?thesis
  proof (cases "fst st ! ny ! nx \<or> g ! ny ! nx")
    case True
    with \<open>fst n \<ge> 0 \<and> fst n < int height \<and> snd n \<ge> 0 \<and> snd n < int width\<close>
    have "visit g width height st n = Inr st"
      by (auto simp: visit_def Let_def rd ny_def [symmetric] nx_def [symmetric])
    with inv m show ?thesis by blast
  next
    case False
    from n have "n = (int cy - 1, int cx) \<or> n = (int cy + 1, int cx) \<or>
        n = (int cy, int cx - 1) \<or> n = (int cy, int cx + 1)"
      by (simp add: neighbors_def)
    then have "(int ny = int cy - 1 \<and> nx = cx) \<or> (int ny = int cy + 1 \<and> nx = cx) \<or>
        (ny = cy \<and> int nx = int cx - 1) \<or> (ny = cy \<and> int nx = int cx + 1)"
      unfolding e by simp
    then have adj: "adjacent (cy, cx) (ny, nx)"
      unfolding adjacent_def fst_conv snd_conv by linarith
    from inv cy cx m have rc: "reachable g width height (cy, cx)" by (simp add: fillInv_def)
    from False have free: "\<not> g ! ny ! nx" by simp
    have r: "reachable g width height (ny, nx)"
      by (rule reachable.step [OF rc]) (simp_all add: b free adj)
    have k: "(fst st)[ny := (fst st ! ny)[nx := True]] ! cy ! cx"
      using nth_update2 [OF rect b cy cx] m by simp
    from False \<open>fst n \<ge> 0 \<and> fst n < int height \<and> snd n \<ge> 0 \<and> snd n < int width\<close>
    have "visit g width height st n
        = Inr ((fst st)[ny := (fst st ! ny)[nx := True]], snd st @ [(int ny, int nx)])"
      by (simp add: visit_def Let_def rd ny_def [symmetric] nx_def [symmetric] e [symmetric])
    with fillInv_mark [OF inv b free r] k show ?thesis by simp
  qed
qed

lemma fillInv_rest: "fillInv g width height (bg, c # rest) \<Longrightarrow> fillInv g width height (bg, rest)"
  by (simp add: fillInv_def)

lemma floodFill_inv:
  "rectangular g width height \<Longrightarrow> fillInv g width height (bg, queue) \<Longrightarrow>
     \<exists>bg'. floodFill g width height bg queue = Inr bg' \<and> fillInv g width height (bg', [])"
proof (induction g width height bg queue rule: floodFill.induct)
  case (1 g width height bg queue)
  show ?case
  proof (cases queue)
    case Nil
    with "1.prems" show ?thesis by simp
  next
    case (Cons c rest)
    from "1.prems"(2) Cons have c: "0 \<le> fst c" "fst c < int height" "0 \<le> snd c" "snd c < int width"
      and m: "bg ! nat (fst c) ! nat (snd c)"
      by (simp_all add: fillInv_def)
    define cy cx where "cy = nat (fst c)" and "cx = nat (snd c)"
    from c have b: "cy < height" "cx < width" and e: "fst c = int cy" "snd c = int cx"
      by (simp_all add: cy_def cx_def)
    let ?P = "\<lambda>st. fillInv g width height st \<and> fst st ! cy ! cx"
    have "\<exists>st. foldE (visit g width height) (neighbors (fst c) (snd c)) (bg, rest) = Inr st \<and> ?P st"
    proof (rule foldE_inv [where P = ?P])
      show "?P (bg, rest)"
        using "1.prems"(2) Cons m by (simp add: fillInv_rest cy_def cx_def)
    next
      fix n st assume "n \<in> set (neighbors (fst c) (snd c))" and "?P st"
      then show "\<exists>st'. visit g width height st n = Inr st' \<and> ?P st'"
        using visit_inv [OF "1.prems"(1) _ b, of st n] by (simp add: e)
    qed
    then obtain st where f: "foldE (visit g width height) (neighbors (fst c) (snd c)) (bg, rest) = Inr st"
      and i: "fillInv g width height st" by auto
    from "1.IH" [OF Cons f "1.prems"(1)] i
    obtain bg' where "floodFill g width height (fst st) (snd st) = Inr bg'"
      and "fillInv g width height (bg', [])" by auto
    with Cons f show ?thesis by simp
  qed
qed

lemma fillInv_initial: "fillInv g width height (replicate height (replicate width False), [])"
  by (simp add: fillInv_def rectangular_def)

lemma getBackgroundGrid_inv:
  assumes g: "rectangular g width height" and w: "0 < width" and h: "0 < height"
  shows "\<exists>bg. getBackgroundGrid g width height = Inr bg \<and> fillInv g width height (bg, [])"
proof -
  have "\<exists>st. foldE (seedRow g width) [0..<height] (replicate height (replicate width False), []) = Inr st
      \<and> fillInv g width height st"
  proof (rule foldE_inv [where P = "fillInv g width height"])
    show "fillInv g width height (replicate height (replicate width False), [])"
      by (rule fillInv_initial)
  next
    fix y st assume "y \<in> set [0..<height]" and i: "fillInv g width height st"
    then have "y < height" by simp
    from seedRow_inv [OF g i this w]
    show "\<exists>st'. seedRow g width st y = Inr st' \<and> fillInv g width height st'" .
  qed
  then obtain st1 where 1: "foldE (seedRow g width) [0..<height]
      (replicate height (replicate width False), []) = Inr st1"
    and i1: "fillInv g width height st1" by auto
  have "\<exists>st. foldE (seedColumn g height) [0..<width] st1 = Inr st \<and> fillInv g width height st"
  proof (rule foldE_inv [where P = "fillInv g width height"])
    show "fillInv g width height st1" by (rule i1)
  next
    fix x st assume "x \<in> set [0..<width]" and i: "fillInv g width height st"
    then have "x < width" by simp
    from seedColumn_inv [OF g i this h]
    show "\<exists>st'. seedColumn g height st x = Inr st' \<and> fillInv g width height st'" .
  qed
  then obtain st2 where 2: "foldE (seedColumn g height) [0..<width] st1 = Inr st2"
    and i2: "fillInv g width height st2" by auto
  from floodFill_inv [OF g, of "fst st2" "snd st2"] i2
  obtain bg where "floodFill g width height (fst st2) (snd st2) = Inr bg"
    and "fillInv g width height (bg, [])" by auto
  with 1 2 show ?thesis by (simp add: getBackgroundGrid_def)
qed

lemma getBackgroundGrid_sound:
  assumes g: "rectangular g width height" and w: "0 < width" and h: "0 < height"
  shows "\<exists>bg. getBackgroundGrid g width height = Inr bg \<and> rectangular bg width height \<and>
     (\<forall>y < height. \<forall>x < width.
        (g ! y ! x \<longrightarrow> \<not> bg ! y ! x) \<and>
        (\<not> g ! y ! x \<longrightarrow> \<not> reachable g width height (y, x) \<longrightarrow> \<not> bg ! y ! x))"
proof -
  from getBackgroundGrid_inv [OF g w h] obtain bg where
    e: "getBackgroundGrid g width height = Inr bg" and i: "fillInv g width height (bg, [])"
    by blast
  from i have r: "rectangular bg width height"
    and m: "\<And>y x. y < height \<Longrightarrow> x < width \<Longrightarrow> bg ! y ! x \<Longrightarrow>
        \<not> g ! y ! x \<and> reachable g width height (y, x)"
    by (simp_all add: fillInv_def)
  from m have "\<forall>y < height. \<forall>x < width.
        (g ! y ! x \<longrightarrow> \<not> bg ! y ! x) \<and>
        (\<not> g ! y ! x \<longrightarrow> \<not> reachable g width height (y, x) \<longrightarrow> \<not> bg ! y ! x)"
    by blast
  with e r show ?thesis by blast
qed

text \<open>
  C1. For a grid of \<open>height\<close> rows of \<open>width\<close> cells, with at least one cell,
  \<open>getBackgroundGrid\<close> returns a mask of the same shape that is false at every
  occupied cell, and false at every unoccupied cell that no path of unoccupied cells,
  each sharing a side with the next, joins to an unoccupied cell of the border.
\<close>

theorem getBackgroundGrid_mask:
  assumes "rectangular stitchGrid width height" and "0 < width" and "0 < height"
  shows "\<exists>bg. getBackgroundGrid stitchGrid width height = Inr bg \<and>
     rectangular bg width height \<and>
     (\<forall>y < height. \<forall>x < width.
        (stitchGrid ! y ! x \<longrightarrow> \<not> bg ! y ! x) \<and>
        (\<not> stitchGrid ! y ! x \<longrightarrow> \<not> reachable stitchGrid width height (y, x) \<longrightarrow> \<not> bg ! y ! x))"
  using assms by (rule getBackgroundGrid_sound)

theorem getBackgroundGrid_mask_witness:
  "rectangular [[False, True, True, True], [True, True, False, True], [True, True, True, True]] 4 3 \<and>
   getBackgroundGrid [[False, True, True, True], [True, True, False, True], [True, True, True, True]] 4 3
     = Inr [[True, False, False, False], [False, False, False, False], [False, False, False, False]] \<and>
   reachable [[False, True, True, True], [True, True, False, True], [True, True, True, True]] 4 3 (0, 0) \<and>
   \<not> reachable [[False, True, True, True], [True, True, False, True], [True, True, True, True]] 4 3 (1, 2)"
proof -
  let ?g = "[[False, True, True, True], [True, True, False, True], [True, True, True, True]]"
  let ?bg = "[[True, False, False, False], [False, False, False, False], [False, False, False, False]]"
  have r: "rectangular ?g 4 3" by (simp add: rectangular_def)
  have e: "getBackgroundGrid ?g 4 3 = Inr ?bg" by code_simp
  from getBackgroundGrid_mask [OF r] e
  have m: "\<forall>y < 3. \<forall>x < 4. (?g ! y ! x \<longrightarrow> \<not> ?bg ! y ! x) \<and>
        (\<not> ?g ! y ! x \<longrightarrow> \<not> reachable ?g 4 3 (y, x) \<longrightarrow> \<not> ?bg ! y ! x)"
    by simp
  have "(0::nat) < 3" "(0::nat) < 4" by simp_all
  with m have "\<not> ?g ! 0 ! 0 \<longrightarrow> \<not> reachable ?g 4 3 (0, 0) \<longrightarrow> \<not> ?bg ! 0 ! 0" by blast
  then have r0: "reachable ?g 4 3 (0, 0)" by simp
  have only: "c = (0, 0)" if "reachable ?g 4 3 c" for c
    using that
  proof (induction rule: reachable.induct)
    case (border y x)
    then have "y \<in> {0, 1, 2}" "x \<in> {0, 1, 2, 3}" by auto
    with border(3,4) show ?case by auto
  next
    case (step c d)
    then have "fst d \<in> {0, 1, 2}" "snd d \<in> {0, 1, 2, 3}" by auto
    with step(4,5,6) show ?case by (cases d) (auto simp: adjacent_def)
  qed
  then have "\<not> reachable ?g 4 3 (1, 2)" by fastforce
  with r e r0 show ?thesis by blast
qed

section \<open>Properties of the ContourTracer\<close>

lemma foldE_total:
  "(\<And>x s. x \<in> set xs \<Longrightarrow> \<exists>s'. f s x = Inr s') \<Longrightarrow> \<exists>s'. foldE f xs s = Inr s'"
proof (induction xs arbitrary: s)
  case Nil
  then show ?case by simp
next
  case (Cons x xs)
  from Cons.prems [of x s] obtain s1 where "f s x = Inr s1" by auto
  moreover from Cons.IH [of s1] Cons.prems obtain s' where "foldE f xs s1 = Inr s'" by auto
  ultimately show ?case by simp
qed

lemma readCell_total: "y < length g \<Longrightarrow> \<exists>b. readCell g y x = Inr b"
  by (simp add: readCell_def)

lemma orRead_total: "atBorder \<or> y < length g \<Longrightarrow> \<exists>b. orRead atBorder g y x = Inr b"
  by (auto simp: orRead_def readCell_def)

lemma cellEdges_total:
  assumes g: "length g = height" and bg: "length bg = height" and y: "y < height"
  shows "\<exists>st'. cellEdges g bg width height st y x = Inr st'"
proof -
  obtain occ where 0: "readCell g y x = Inr occ"
    using readCell_total [of y g x] g y by auto
  have "y = 0 \<or> y - 1 < length bg" using bg y by auto
  from orRead_total [OF this]
  obtain a where 1: "orRead (y = 0) bg (y - 1) x = Inr a" by blast
  have "int y = int height - 1 \<or> y + 1 < length bg" using bg y by auto
  from orRead_total [OF this]
  obtain b where 2: "orRead (int y = int height - 1) bg (y + 1) x = Inr b" by blast
  have "x = 0 \<or> y < length bg" using bg y by auto
  from orRead_total [OF this]
  obtain c where 3: "orRead (x = 0) bg y (x - 1) = Inr c" by blast
  have "int x = int width - 1 \<or> y < length bg" using bg y by auto
  from orRead_total [OF this]
  obtain d where 4: "orRead (int x = int width - 1) bg y (x + 1) = Inr d" by blast
  show ?thesis unfolding cellEdges_def 0 1 2 3 4 by (simp add: Let_def)
qed

lemma boundaryEdges_total:
  assumes g: "length g = height" and bg: "length bg = height"
  shows "\<exists>es. boundaryEdges g bg width height = Inr es"
  unfolding boundaryEdges_def
proof (rule foldE_total)
  fix y st assume "y \<in> set [0..<height]"
  then have y: "y < height" by simp
  show "\<exists>s'. foldE (\<lambda>st x. cellEdges g bg width height st y x) [0..<width] st = Inr s'"
    by (rule foldE_total) (rule cellEdges_total [OF g bg y])
qed

lemma walk_props:
  "distinct path \<Longrightarrow> set path \<subseteq> set vis \<Longrightarrow>
     distinct (fst (walk m c path vis)) \<and>
     set (fst (walk m c path vis)) \<subseteq> set (snd (walk m c path vis)) \<and>
     set vis \<subseteq> set (snd (walk m c path vis)) \<and>
     set (fst (walk m c path vis)) \<inter> set vis \<subseteq> set path"
proof (induction m c path vis rule: walk.induct)
  case (1 m c path vis)
  show ?case
  proof (cases "nextPoint (getEdges m c) c vis")
    case None
    with 1 show ?thesis by auto
  next
    case (Some n)
    then have n: "n \<notin> set vis" by (simp add: nextPoint_Some)
    with "1.prems" have d: "distinct (path @ [n])" and s: "set (path @ [n]) \<subseteq> set (vis @ [n])"
      by auto
    note ih = "1.IH" [OF Some d s]
    have w: "walk m c path vis = walk m n (path @ [n]) (vis @ [n])"
      using Some by simp
    from ih n show ?thesis unfolding w by auto
  qed
qed

lemma tracePath_tidy: "tidy st \<Longrightarrow> tidy (tracePath m start st)"
proof (cases "start \<in> set (fst st)")
  case True
  assume "tidy st"
  with True show ?thesis by (simp add: tracePath_def)
next
  case False
  assume t: "tidy st"
  let ?r = "walk m start [start] (fst st @ [start])"
  have "distinct [start]" "set [start] \<subseteq> set (fst st @ [start])" by simp_all
  from walk_props [OF this, of m start]
  have d: "distinct (fst ?r)" and s1: "set (fst ?r) \<subseteq> set (snd ?r)"
    and s2: "set (fst st @ [start]) \<subseteq> set (snd ?r)"
    and s3: "set (fst ?r) \<inter> set (fst st @ [start]) \<subseteq> set [start]"
    by blast+
  from s3 False have dj: "set (fst ?r) \<inter> set (fst st) = {}" by auto
  show ?thesis
  proof (cases "length (fst ?r) > 1")
    case False
    with \<open>start \<notin> set (fst st)\<close> t s2 show ?thesis
      by (auto simp: tracePath_def tidy_def Let_def)
  next
    case True
    have e: "tracePath m start st = (snd ?r, snd st @ [simplifyPath (fst ?r)])"
      using True \<open>start \<notin> set (fst st)\<close> by (simp add: tracePath_def Let_def)
    have sp: "set (simplifyPath (fst ?r)) \<subseteq> set (fst ?r)" by (rule simplifyPath_set)
    have "distinct (simplifyPath (fst ?r))" using d by (rule simplifyPath_distinct)
    moreover from sp dj t have "set (concat (snd st)) \<inter> set (simplifyPath (fst ?r)) = {}"
      unfolding tidy_def by blast
    ultimately have 1: "distinct (concat (snd st @ [simplifyPath (fst ?r)]))"
      using t by (simp add: tidy_def)
    have 2: "set (concat (snd st @ [simplifyPath (fst ?r)])) \<subseteq> set (snd ?r)"
      using t s1 s2 sp unfolding tidy_def by auto
    have "2 \<le> length (simplifyPath (fst ?r))"
      using True by (intro simplifyPath_length) simp
    with t have 3: "\<forall>p \<in> set (snd st @ [simplifyPath (fst ?r)]). 2 \<le> length p"
      by (auto simp: tidy_def)
    from 1 2 3 show ?thesis unfolding e tidy_def by simp
  qed
qed

lemma fold_tracePath_tidy: "tidy st \<Longrightarrow> tidy (fold (tracePath m) keys st)"
  by (induction keys arbitrary: st) (simp_all add: tracePath_tidy)

lemma trace_tidy:
  "traceAndSimplifyContours g bg width height = Inr paths \<Longrightarrow>
     distinct (concat paths) \<and> (\<forall>p \<in> set paths. 2 \<le> length p)"
proof -
  assume t: "traceAndSimplifyContours g bg width height = Inr paths"
  then obtain es where "paths = snd (fold (tracePath (pointsToEdges es))
      (map fst (pointsToEdges es)) ([], []))"
    by (auto simp: traceAndSimplifyContours_def Let_def split: sum.splits)
  moreover have "tidy (fold (tracePath (pointsToEdges es)) (map fst (pointsToEdges es)) ([], []))"
    by (rule fold_tracePath_tidy) (simp add: tidy_def)
  ultimately show ?thesis by (simp add: tidy_def)
qed

lemma trace_total:
  "length g = height \<Longrightarrow> length bg = height \<Longrightarrow>
     \<exists>paths. traceAndSimplifyContours g bg width height = Inr paths"
  using boundaryEdges_total [of g height bg width]
  by (auto simp: traceAndSimplifyContours_def Let_def)

lemma foldE_union:
  assumes step: "\<And>x s s'. x \<in> set xs \<Longrightarrow> f s x = Inr s' \<Longrightarrow> A s' = A s \<union> C x"
    and run: "foldE f xs s = Inr s'"
  shows "A s' = A s \<union> (\<Union>x \<in> set xs. C x)"
  using assms
proof (induction xs arbitrary: s)
  case Nil
  then show ?case by simp
next
  case (Cons x xs)
  from Cons.prems(2) obtain s1 where 1: "f s x = Inr s1" and 2: "foldE f xs s1 = Inr s'"
    by (auto split: sum.splits)
  have "A s1 = A s \<union> C x" using Cons.prems(1) [of x s s1] 1 by simp
  moreover have "A s' = A s1 \<union> (\<Union>x \<in> set xs. C x)"
    using Cons.IH [OF _ 2] Cons.prems(1) by simp
  ultimately show ?case by auto
qed

lemma set_addKey: "set (addKey s k) = insert k (set s)"
  by (auto simp: addKey_def)

lemma cellEdges_sets:
  assumes g: "rectangular g width height" and bg: "rectangular bg width height"
    and y: "y < height" and x: "x < width"
    and c: "cellEdges g bg width height st y x = Inr st'"
  shows "set (fst st') = set (fst st) \<union> horizontalSides g bg height y x"
    and "set (snd st') = set (snd st) \<union> verticalSides g bg width y x"
proof -
  define a where "a = (y = 0 \<or> bg ! (y - 1) ! x)"
  define b where "b = (Suc y = height \<or> bg ! (y + 1) ! x)"
  define l where "l = (x = 0 \<or> bg ! y ! (x - 1))"
  define r where "r = (Suc x = width \<or> bg ! y ! (x + 1))"
  have 0: "readCell g y x = Inr (g ! y ! x)" by (rule readCell_rect [OF g y x])
  have 1: "orRead (y = 0) bg (y - 1) x = Inr a"
    using readCell_rect [OF bg _ x, of "y - 1"] y by (auto simp: orRead_def a_def)
  have 2: "orRead (int y = int height - 1) bg (y + 1) x = Inr b"
    using readCell_rect [OF bg _ x, of "y + 1"] y by (auto simp: orRead_def b_def)
  have 3: "orRead (x = 0) bg y (x - 1) = Inr l"
    using readCell_rect [OF bg y, of "x - 1"] x by (auto simp: orRead_def l_def)
  have 4: "orRead (int x = int width - 1) bg y (x + 1) = Inr r"
    using readCell_rect [OF bg y, of "x + 1"] x by (auto simp: orRead_def r_def)
  from c have e: "st' = (if g ! y ! x then
      (let h1 = (if a then addKey (fst st) (int x, int y) else fst st);
           h2 = (if b then addKey h1 (int x, int y + 1) else h1);
           v1 = (if l then addKey (snd st) (int x, int y) else snd st);
           v2 = (if r then addKey v1 (int x + 1, int y) else v1)
       in (h2, v2)) else st)"
    unfolding cellEdges_def 0 1 2 3 4 by (simp add: Let_def split: if_splits)
  have hs: "horizontalSides g bg height y x =
      {p. g ! y ! x \<and> (p = (int x, int y) \<and> a \<or> p = (int x, int y + 1) \<and> b)}"
    by (simp add: horizontalSides_def a_def b_def)
  have vs: "verticalSides g bg width y x =
      {p. g ! y ! x \<and> (p = (int x, int y) \<and> l \<or> p = (int x + 1, int y) \<and> r)}"
    by (simp add: verticalSides_def l_def r_def)
  show "set (fst st') = set (fst st) \<union> horizontalSides g bg height y x"
    unfolding e hs by (auto simp: Let_def set_addKey)
  show "set (snd st') = set (snd st) \<union> verticalSides g bg width y x"
    unfolding e vs by (auto simp: Let_def set_addKey)
qed

lemma boundaryEdges_sets:
  assumes g: "rectangular g width height" and bg: "rectangular bg width height"
    and b: "boundaryEdges g bg width height = Inr es"
  shows "set (fst es) = (\<Union>y \<in> {0..<height}. \<Union>x \<in> {0..<width}. horizontalSides g bg height y x)"
    and "set (snd es) = (\<Union>y \<in> {0..<height}. \<Union>x \<in> {0..<width}. verticalSides g bg width y x)"
proof -
  let ?row = "\<lambda>st y. foldE (\<lambda>st x. cellEdges g bg width height st y x) [0..<width] st"
  have rowH: "set (fst st') = set (fst st) \<union> (\<Union>x \<in> set [0..<width]. horizontalSides g bg height y x)"
    if "y \<in> set [0..<height]" and "?row st y = Inr st'" for y st st'
  proof (rule foldE_union [where A = "\<lambda>st. set (fst st)", OF _ that(2)])
    fix x s s' assume "x \<in> set [0..<width]" and "cellEdges g bg width height s y x = Inr s'"
    then show "set (fst s') = set (fst s) \<union> horizontalSides g bg height y x"
      using cellEdges_sets(1) [OF g bg _ _, of y x s s'] that(1) by simp
  qed
  have rowV: "set (snd st') = set (snd st) \<union> (\<Union>x \<in> set [0..<width]. verticalSides g bg width y x)"
    if "y \<in> set [0..<height]" and "?row st y = Inr st'" for y st st'
  proof (rule foldE_union [where A = "\<lambda>st. set (snd st)", OF _ that(2)])
    fix x s s' assume "x \<in> set [0..<width]" and "cellEdges g bg width height s y x = Inr s'"
    then show "set (snd s') = set (snd s) \<union> verticalSides g bg width y x"
      using cellEdges_sets(2) [OF g bg _ _, of y x s s'] that(1) by simp
  qed
  from b have run: "foldE ?row [0..<height] ([], []) = Inr es" by (simp add: boundaryEdges_def)
  from foldE_union [where A = "\<lambda>st. set (fst st)" and f = ?row, OF rowH run]
  show "set (fst es) = (\<Union>y \<in> {0..<height}. \<Union>x \<in> {0..<width}. horizontalSides g bg height y x)"
    by simp
  from foldE_union [where A = "\<lambda>st. set (snd st)" and f = ?row, OF rowV run]
  show "set (snd es) = (\<Union>y \<in> {0..<height}. \<Union>x \<in> {0..<width}. verticalSides g bg width y x)"
    by simp
qed

lemma sides_of_occupied:
  assumes g: "rectangular g width height" and bg: "rectangular bg width height"
    and mask: "\<And>y x. y < height \<Longrightarrow> x < width \<Longrightarrow> g ! y ! x \<Longrightarrow> \<not> bg ! y ! x"
    and b: "boundaryEdges g bg width height = Inr es"
    and y: "y < height" and x: "x < width" and occ: "g ! y ! x"
  shows "(int x, int y) \<in> set (fst es) \<longleftrightarrow> y = 0 \<or> bg ! (y - 1) ! x"
    and "(int x, int y + 1) \<in> set (fst es) \<longleftrightarrow> Suc y = height \<or> bg ! (y + 1) ! x"
    and "(int x, int y) \<in> set (snd es) \<longleftrightarrow> x = 0 \<or> bg ! y ! (x - 1)"
    and "(int x + 1, int y) \<in> set (snd es) \<longleftrightarrow> Suc x = width \<or> bg ! y ! (x + 1)"
proof -
  note sets = boundaryEdges_sets [OF g bg b]
  have hmem: "p \<in> set (fst es) \<longleftrightarrow>
      (\<exists>y' < height. \<exists>x' < width. p \<in> horizontalSides g bg height y' x')" for p
    unfolding sets by (simp add: Bex_def)
  have vmem: "p \<in> set (snd es) \<longleftrightarrow>
      (\<exists>y' < height. \<exists>x' < width. p \<in> verticalSides g bg width y' x')" for p
    unfolding sets by (simp add: Bex_def)
  show "(int x, int y) \<in> set (fst es) \<longleftrightarrow> y = 0 \<or> bg ! (y - 1) ! x"
  proof
    assume "(int x, int y) \<in> set (fst es)"
    then obtain y' x' where b': "y' < height" "x' < width"
      and m: "(int x, int y) \<in> horizontalSides g bg height y' x'"
      unfolding hmem by blast
    from m have o': "g ! y' ! x'" by (simp add: horizontalSides_def)
    from m consider "x' = x" "y' = y" "y = 0 \<or> bg ! (y - 1) ! x"
      | "x' = x" "y = Suc y'" "bg ! (y' + 1) ! x'"
      using y by (auto simp: horizontalSides_def)
    then show "y = 0 \<or> bg ! (y - 1) ! x"
    proof cases
      case 1
      then show ?thesis by simp
    next
      case 2
      with mask [OF y x occ] show ?thesis by simp
    qed
  next
    assume "y = 0 \<or> bg ! (y - 1) ! x"
    with occ have "(int x, int y) \<in> horizontalSides g bg height y x"
      by (simp add: horizontalSides_def)
    with y x show "(int x, int y) \<in> set (fst es)" unfolding hmem by blast
  qed
  show "(int x, int y + 1) \<in> set (fst es) \<longleftrightarrow> Suc y = height \<or> bg ! (y + 1) ! x"
  proof
    assume "(int x, int y + 1) \<in> set (fst es)"
    then obtain y' x' where b': "y' < height" "x' < width"
      and m: "(int x, int y + 1) \<in> horizontalSides g bg height y' x'"
      unfolding hmem by blast
    from m have o': "g ! y' ! x'" by (simp add: horizontalSides_def)
    from m consider "x' = x" "y' = y" "Suc y = height \<or> bg ! (y + 1) ! x"
      | "x' = x" "int y' = int y + 1" "bg ! (y' - 1) ! x'"
      by (auto simp: horizontalSides_def)
    then show "Suc y = height \<or> bg ! (y + 1) ! x"
    proof cases
      case 1
      then show ?thesis by simp
    next
      case 2
      then have "y' = Suc y" by linarith
      with 2 mask [OF y x occ] show ?thesis by simp
    qed
  next
    assume "Suc y = height \<or> bg ! (y + 1) ! x"
    with occ have "(int x, int y + 1) \<in> horizontalSides g bg height y x"
      by (simp add: horizontalSides_def)
    with y x show "(int x, int y + 1) \<in> set (fst es)" unfolding hmem by blast
  qed
  show "(int x, int y) \<in> set (snd es) \<longleftrightarrow> x = 0 \<or> bg ! y ! (x - 1)"
  proof
    assume "(int x, int y) \<in> set (snd es)"
    then obtain y' x' where b': "y' < height" "x' < width"
      and m: "(int x, int y) \<in> verticalSides g bg width y' x'"
      unfolding vmem by blast
    from m consider "x' = x" "y' = y" "x = 0 \<or> bg ! y ! (x - 1)"
      | "y' = y" "x = Suc x'" "bg ! y' ! (x' + 1)"
      using x by (auto simp: verticalSides_def)
    then show "x = 0 \<or> bg ! y ! (x - 1)"
    proof cases
      case 1
      then show ?thesis by simp
    next
      case 2
      with mask [OF y x occ] show ?thesis by simp
    qed
  next
    assume "x = 0 \<or> bg ! y ! (x - 1)"
    with occ have "(int x, int y) \<in> verticalSides g bg width y x"
      by (simp add: verticalSides_def)
    with y x show "(int x, int y) \<in> set (snd es)" unfolding vmem by blast
  qed
  show "(int x + 1, int y) \<in> set (snd es) \<longleftrightarrow> Suc x = width \<or> bg ! y ! (x + 1)"
  proof
    assume "(int x + 1, int y) \<in> set (snd es)"
    then obtain y' x' where b': "y' < height" "x' < width"
      and m: "(int x + 1, int y) \<in> verticalSides g bg width y' x'"
      unfolding vmem by blast
    from m consider "x' = x" "y' = y" "Suc x = width \<or> bg ! y ! (x + 1)"
      | "y' = y" "int x' = int x + 1" "bg ! y' ! (x' - 1)"
      by (auto simp: verticalSides_def)
    then show "Suc x = width \<or> bg ! y ! (x + 1)"
    proof cases
      case 1
      then show ?thesis by simp
    next
      case 2
      then have "x' = Suc x" by linarith
      with 2 mask [OF y x occ] show ?thesis by simp
    qed
  next
    assume "Suc x = width \<or> bg ! y ! (x + 1)"
    with occ have "(int x + 1, int y) \<in> verticalSides g bg width y x"
      by (simp add: verticalSides_def)
    with y x show "(int x + 1, int y) \<in> set (snd es)" unfolding vmem by blast
  qed
qed

text \<open>
  C2. For a grid with at least one cell and its background mask, a side of an occupied
  cell is among the boundary edges exactly when the cell across that side lies outside
  the grid or is marked in the mask. On the 5 by 5 ring of occupied border cells around
  a 3 by 3 hole the mask is false everywhere and the tracer returns the outer
  rectangle as its only path.
\<close>

theorem boundary_edges_face_background:
  assumes g: "rectangular stitchGrid width height" and w: "0 < width" and h: "0 < height"
  shows "(\<exists>bg es. getBackgroundGrid stitchGrid width height = Inr bg \<and>
       boundaryEdges stitchGrid bg width height = Inr es \<and>
       (\<forall>y < height. \<forall>x < width. stitchGrid ! y ! x \<longrightarrow>
          ((int x, int y) \<in> set (fst es) \<longleftrightarrow> y = 0 \<or> bg ! (y - 1) ! x) \<and>
          ((int x, int y + 1) \<in> set (fst es) \<longleftrightarrow> Suc y = height \<or> bg ! (y + 1) ! x) \<and>
          ((int x, int y) \<in> set (snd es) \<longleftrightarrow> x = 0 \<or> bg ! y ! (x - 1)) \<and>
          ((int x + 1, int y) \<in> set (snd es) \<longleftrightarrow> Suc x = width \<or> bg ! y ! (x + 1)))) \<and>
     getBackgroundGrid
         [[True, True, True, True, True], [True, False, False, False, True],
          [True, False, False, False, True], [True, False, False, False, True],
          [True, True, True, True, True]] 5 5
       = Inr [[False, False, False, False, False], [False, False, False, False, False],
              [False, False, False, False, False], [False, False, False, False, False],
              [False, False, False, False, False]] \<and>
     traceAndSimplifyContours
         [[True, True, True, True, True], [True, False, False, False, True],
          [True, False, False, False, True], [True, False, False, False, True],
          [True, True, True, True, True]]
         [[False, False, False, False, False], [False, False, False, False, False],
          [False, False, False, False, False], [False, False, False, False, False],
          [False, False, False, False, False]] 5 5
       = Inr [[(0, 0), (5, 0), (5, 5), (0, 5)]]"
proof (intro conjI)
  from getBackgroundGrid_sound [OF g w h] obtain bg where
    e: "getBackgroundGrid stitchGrid width height = Inr bg"
    and r: "rectangular bg width height"
    and m: "\<And>y x. y < height \<Longrightarrow> x < width \<Longrightarrow> stitchGrid ! y ! x \<Longrightarrow> \<not> bg ! y ! x"
    by blast
  from g r have "length stitchGrid = height" "length bg = height"
    by (simp_all add: rectangular_def)
  from boundaryEdges_total [OF this] obtain es where
    b: "boundaryEdges stitchGrid bg width height = Inr es" by blast
  note sides = sides_of_occupied [OF g r m b]
  have "\<forall>y < height. \<forall>x < width. stitchGrid ! y ! x \<longrightarrow>
          ((int x, int y) \<in> set (fst es) \<longleftrightarrow> y = 0 \<or> bg ! (y - 1) ! x) \<and>
          ((int x, int y + 1) \<in> set (fst es) \<longleftrightarrow> Suc y = height \<or> bg ! (y + 1) ! x) \<and>
          ((int x, int y) \<in> set (snd es) \<longleftrightarrow> x = 0 \<or> bg ! y ! (x - 1)) \<and>
          ((int x + 1, int y) \<in> set (snd es) \<longleftrightarrow> Suc x = width \<or> bg ! y ! (x + 1))"
    using sides by blast
  with e b show "\<exists>bg es. getBackgroundGrid stitchGrid width height = Inr bg \<and>
       boundaryEdges stitchGrid bg width height = Inr es \<and>
       (\<forall>y < height. \<forall>x < width. stitchGrid ! y ! x \<longrightarrow>
          ((int x, int y) \<in> set (fst es) \<longleftrightarrow> y = 0 \<or> bg ! (y - 1) ! x) \<and>
          ((int x, int y + 1) \<in> set (fst es) \<longleftrightarrow> Suc y = height \<or> bg ! (y + 1) ! x) \<and>
          ((int x, int y) \<in> set (snd es) \<longleftrightarrow> x = 0 \<or> bg ! y ! (x - 1)) \<and>
          ((int x + 1, int y) \<in> set (snd es) \<longleftrightarrow> Suc x = width \<or> bg ! y ! (x + 1)))"
    by blast
next
  show "getBackgroundGrid
         [[True, True, True, True, True], [True, False, False, False, True],
          [True, False, False, False, True], [True, False, False, False, True],
          [True, True, True, True, True]] 5 5
       = Inr [[False, False, False, False, False], [False, False, False, False, False],
              [False, False, False, False, False], [False, False, False, False, False],
              [False, False, False, False, False]]"
    by code_simp
next
  show "traceAndSimplifyContours
         [[True, True, True, True, True], [True, False, False, False, True],
          [True, False, False, False, True], [True, False, False, False, True],
          [True, True, True, True, True]]
         [[False, False, False, False, False], [False, False, False, False, False],
          [False, False, False, False, False], [False, False, False, False, False],
          [False, False, False, False, False]] 5 5
       = Inr [[(0, 0), (5, 0), (5, 5), (0, 5)]]"
    by code_simp
qed

theorem boundary_edges_face_background_witness:
  "rectangular [[False, True, True, True], [True, True, False, True], [True, True, True, True]] 4 3 \<and>
   getBackgroundGrid [[False, True, True, True], [True, True, False, True], [True, True, True, True]] 4 3
     = Inr [[True, False, False, False], [False, False, False, False], [False, False, False, False]] \<and>
   boundaryEdges [[False, True, True, True], [True, True, False, True], [True, True, True, True]]
       [[True, False, False, False], [False, False, False, False], [False, False, False, False]] 4 3
     = Inr ([(1, 0), (2, 0), (3, 0), (0, 1), (0, 3), (1, 3), (2, 3), (3, 3)],
            [(1, 0), (4, 0), (0, 1), (4, 1), (0, 2), (4, 2)]) \<and>
   (1, 0) \<in> set ([(1, 0), (4, 0), (0, 1), (4, 1), (0, 2), (4, 2)] :: point list) \<and>
   (2, 1) \<notin> set ([(1, 0), (4, 0), (0, 1), (4, 1), (0, 2), (4, 2)] :: point list)"
proof -
  let ?g = "[[False, True, True, True], [True, True, False, True], [True, True, True, True]]"
  let ?bg = "[[True, False, False, False], [False, False, False, False], [False, False, False, False]]"
  let ?H = "[(1, 0), (2, 0), (3, 0), (0, 1), (0, 3), (1, 3), (2, 3), (3, 3)] :: point list"
  let ?V = "[(1, 0), (4, 0), (0, 1), (4, 1), (0, 2), (4, 2)] :: point list"
  have r: "rectangular ?g 4 3" by (simp add: rectangular_def)
  have e: "getBackgroundGrid ?g 4 3 = Inr ?bg" by code_simp
  have b: "boundaryEdges ?g ?bg 4 3 = Inr (?H, ?V)" by code_simp
  from boundary_edges_face_background [OF r] e b
  have s: "\<forall>y < 3. \<forall>x < 4. ?g ! y ! x \<longrightarrow>
          ((int x, int y) \<in> set ?V \<longleftrightarrow> x = 0 \<or> ?bg ! y ! (x - 1)) \<and>
          ((int x + 1, int y) \<in> set ?V \<longleftrightarrow> Suc x = 4 \<or> ?bg ! y ! (x + 1))"
    by simp
  have "(0::nat) < 3" "(1::nat) < 4" by simp_all
  with s have "?g ! 0 ! 1 \<longrightarrow>
      ((int 1, int 0) \<in> set ?V \<longleftrightarrow> (1::nat) = 0 \<or> ?bg ! 0 ! (1 - 1))" by blast
  then have 1: "(1, 0) \<in> set ?V" by simp
  have "(1::nat) < 3" "(1::nat) < 4" by simp_all
  with s have "?g ! 1 ! 1 \<longrightarrow>
      ((int 1 + 1, int 1) \<in> set ?V \<longleftrightarrow> Suc 1 = 4 \<or> ?bg ! 1 ! (1 + 1))" by blast
  then have 2: "(2, 1) \<notin> set ?V" by simp
  from r e b 1 2 show ?thesis by blast
qed

text \<open>
  C3. On the 4 by 4 grid whose cells are all occupied the mask is false everywhere and
  the tracer returns the single path \<open>[(0,0),(4,0),(4,4),(0,4)]\<close>.
\<close>

theorem solid_square_4:
  "getBackgroundGrid [[True, True, True, True], [True, True, True, True],
                      [True, True, True, True], [True, True, True, True]] 4 4
     = Inr [[False, False, False, False], [False, False, False, False],
            [False, False, False, False], [False, False, False, False]] \<and>
   traceAndSimplifyContours
       [[True, True, True, True], [True, True, True, True],
        [True, True, True, True], [True, True, True, True]]
       [[False, False, False, False], [False, False, False, False],
        [False, False, False, False], [False, False, False, False]] 4 4
     = Inr [[(0, 0), (4, 0), (4, 4), (0, 4)]]"
  by code_simp

text \<open>
  C9. The tracer returns a list of paths whenever both grids have \<open>height\<close> rows, and
  every path it returns has at least two points.
\<close>

theorem traced_paths_length:
  "(length stitchGrid = height \<longrightarrow> length backgroundGrid = height \<longrightarrow>
      (\<exists>paths. traceAndSimplifyContours stitchGrid backgroundGrid width height = Inr paths)) \<and>
   (\<forall>paths. traceAndSimplifyContours stitchGrid backgroundGrid width height = Inr paths \<longrightarrow>
      (\<forall>p \<in> set paths. 2 \<le> length p))"
proof (intro conjI impI allI)
  assume "length stitchGrid = height" and "length backgroundGrid = height"
  then show "\<exists>paths. traceAndSimplifyContours stitchGrid backgroundGrid width height = Inr paths"
    by (rule trace_total)
next
  fix paths
  assume "traceAndSimplifyContours stitchGrid backgroundGrid width height = Inr paths"
  from trace_tidy [OF this] show "\<forall>p \<in> set paths. 2 \<le> length p" by simp
qed

theorem traced_paths_length_witness:
  "length [[True, False, False], [False, True, False], [False, False, True]] = 3 \<and>
   length [[False, True, True], [True, False, True], [True, True, False]] = 3 \<and>
   traceAndSimplifyContours [[True, False, False], [False, True, False], [False, False, True]]
       [[False, True, True], [True, False, True], [True, True, False]] 3 3
     = Inr [[(0, 0), (1, 0), (1, 1), (0, 1)], [(2, 1), (2, 2), (1, 2)], [(3, 2), (3, 3), (2, 3)]] \<and>
   2 \<le> length ([(2, 1), (2, 2), (1, 2)] :: point list)"
proof -
  let ?g = "[[True, False, False], [False, True, False], [False, False, True]]"
  let ?bg = "[[False, True, True], [True, False, True], [True, True, False]]"
  let ?paths = "[[(0, 0), (1, 0), (1, 1), (0, 1)], [(2, 1), (2, 2), (1, 2)],
      [(3, 2), (3, 3), (2, 3)]] :: point list list"
  have e: "traceAndSimplifyContours ?g ?bg 3 3 = Inr ?paths" by code_simp
  from traced_paths_length [of ?g 3 ?bg 3] e
  have "\<forall>p \<in> set ?paths. 2 \<le> length p" by blast
  then have "2 \<le> length ([(2, 1), (2, 2), (1, 2)] :: point list)" by simp
  with e show ?thesis by simp
qed

text \<open>
  C10. The tracer returns a list of paths whenever both grids have \<open>height\<close> rows, and
  no point occurs twice in the concatenation of the paths it returns: the paths are
  pairwise disjoint and none repeats a point, its starting point included.
\<close>

theorem traced_paths_disjoint:
  "(length stitchGrid = height \<longrightarrow> length backgroundGrid = height \<longrightarrow>
      (\<exists>paths. traceAndSimplifyContours stitchGrid backgroundGrid width height = Inr paths)) \<and>
   (\<forall>paths. traceAndSimplifyContours stitchGrid backgroundGrid width height = Inr paths \<longrightarrow>
      distinct (concat paths))"
proof (intro conjI impI allI)
  assume "length stitchGrid = height" and "length backgroundGrid = height"
  then show "\<exists>paths. traceAndSimplifyContours stitchGrid backgroundGrid width height = Inr paths"
    by (rule trace_total)
next
  fix paths
  assume "traceAndSimplifyContours stitchGrid backgroundGrid width height = Inr paths"
  from trace_tidy [OF this] show "distinct (concat paths)" by simp
qed

theorem traced_paths_disjoint_witness:
  "length [[True, False], [False, True]] = 2 \<and> length [[False, True], [True, False]] = 2 \<and>
   traceAndSimplifyContours [[True, False], [False, True]] [[False, True], [True, False]] 2 2
     = Inr [[(0, 0), (1, 0), (1, 1), (0, 1)], [(2, 1), (2, 2), (1, 2)]] \<and>
   distinct ([(0, 0), (1, 0), (1, 1), (0, 1), (2, 1), (2, 2), (1, 2)] :: point list)"
proof -
  let ?g = "[[True, False], [False, True]]"
  let ?bg = "[[False, True], [True, False]]"
  let ?paths = "[[(0, 0), (1, 0), (1, 1), (0, 1)], [(2, 1), (2, 2), (1, 2)]] :: point list list"
  have e: "traceAndSimplifyContours ?g ?bg 2 2 = Inr ?paths" by code_simp
  from traced_paths_disjoint [of ?g 2 ?bg 2] e
  have "distinct (concat ?paths)" by blast
  then have "distinct ([(0, 0), (1, 0), (1, 1), (0, 1), (2, 1), (2, 2), (1, 2)] :: point list)"
    by simp
  with e show ?thesis by simp
qed

section \<open>Properties of the Quantizer\<close>

lemma fl_299: "fl (299 / 1000) = 5386305154335113 / 18014398509481984"
  by code_simp

lemma fl_587: "fl (587 / 1000) = 2643612981266481 / 4503599627370496"
  by code_simp

lemma fl_114: "fl (114 / 1000) = 8214565720323785 / 72057594037927936"
  by code_simp

lemma fl_bounds:
  assumes "0 \<le> x"
  shows "x - x / 9007199254740992 \<le> fl x" and "fl x \<le> x + x / 9007199254740992"
proof -
  from fl_error [OF assms] have "\<bar>fl x - x\<bar> \<le> x / 9007199254740992" by simp
  then show "x - x / 9007199254740992 \<le> fl x" and "fl x \<le> x + x / 9007199254740992"
    by linarith+
qed

lemma gray_close:
  assumes r: "r \<le> 255" and g: "g \<le> 255" and b: "b \<le> 255"
  shows "\<bar>gray r g b - luminance r g b\<bar> < 1 / 1000"
proof -
  define R G B :: rat where "R = of_nat r" and "G = of_nat g" and "B = of_nat b"
  have R: "0 \<le> R" "R \<le> 255" and G: "0 \<le> G" "G \<le> 255" and B: "0 \<le> B" "B \<le> 255"
    using r g b by (simp_all add: R_def G_def B_def)
  define x1 x2 x3 where "x1 = R * (5386305154335113 / 18014398509481984)"
    and "x2 = G * (2643612981266481 / 4503599627370496)"
    and "x3 = B * (8214565720323785 / 72057594037927936)"
  have x: "0 \<le> x1" "0 \<le> x2" "0 \<le> x3" using R G B by (simp_all add: x1_def x2_def x3_def)
  have xb: "x1 \<le> 77" "x2 \<le> 150" "x3 \<le> 30"
    using R G B by (simp_all add: x1_def x2_def x3_def)
  have d1: "x1 - 299 / 1000 * R \<le> 1 / 1000000" "299 / 1000 * R - x1 \<le> 1 / 1000000"
    using R unfolding x1_def by linarith+
  have d2: "x2 - 587 / 1000 * G \<le> 1 / 1000000" "587 / 1000 * G - x2 \<le> 1 / 1000000"
    using G unfolding x2_def by linarith+
  have d3: "x3 - 114 / 1000 * B \<le> 1 / 1000000" "114 / 1000 * B - x3 \<le> 1 / 1000000"
    using B unfolding x3_def by linarith+
  note p1 = fl_bounds [OF x(1)] and p2 = fl_bounds [OF x(2)] and p3 = fl_bounds [OF x(3)]
  have p: "0 \<le> fl x1" "0 \<le> fl x2" "0 \<le> fl x3"
    using p1(1) p2(1) p3(1) x by linarith+
  have e1: "fl x1 - x1 \<le> 1 / 1000000" "x1 - fl x1 \<le> 1 / 1000000"
    using p1 xb(1) x(1) by linarith+
  have e2: "fl x2 - x2 \<le> 1 / 1000000" "x2 - fl x2 \<le> 1 / 1000000"
    using p2 xb(2) x(2) by linarith+
  have e3: "fl x3 - x3 \<le> 1 / 1000000" "x3 - fl x3 \<le> 1 / 1000000"
    using p3 xb(3) x(3) by linarith+
  define y where "y = fl x1 + fl x2"
  have y: "0 \<le> y" "y \<le> 300" using p e1 e2 xb unfolding y_def by linarith+
  note s1 = fl_bounds [OF y(1)]
  have e4: "fl y - y \<le> 1 / 1000000" "y - fl y \<le> 1 / 1000000" "0 \<le> fl y"
    using s1 y by linarith+
  define z where "z = fl y + fl x3"
  have z: "0 \<le> z" "z \<le> 400" using p e3 e4 y xb unfolding z_def by linarith+
  note s2 = fl_bounds [OF z(1)]
  have e5: "fl z - z \<le> 1 / 1000000" "z - fl z \<le> 1 / 1000000" using s2 z by linarith+
  have gr: "gray r g b = fl z"
    unfolding gray_def fl_299 fl_587 fl_114 z_def y_def x1_def x2_def x3_def R_def G_def B_def
    by (rule refl)
  have lu: "luminance r g b = 299 / 1000 * R + 587 / 1000 * G + 114 / 1000 * B"
    by (simp add: luminance_def R_def G_def B_def)
  have up: "fl z - (299 / 1000 * R + 587 / 1000 * G + 114 / 1000 * B) \<le> 8 / 1000000"
    using d1(1) d2(1) d3(1) e1(1) e2(1) e3(1) e4(1) e5(1) unfolding z_def y_def by linarith
  have lo: "(299 / 1000 * R + 587 / 1000 * G + 114 / 1000 * B) - fl z \<le> 8 / 1000000"
    using d1(2) d2(2) d3(2) e1(2) e2(2) e3(2) e4(2) e5(2) unfolding z_def y_def by linarith
  from up lo show ?thesis unfolding gr lu by linarith
qed

text \<open>
  Two different multiples of \<open>1/1000\<close> are at least \<open>1/1000\<close> apart, which is far more
  than the rounding of \<open>gray\<close>.
\<close>

lemma luminance_gap:
  assumes "luminance r g b \<noteq> of_int t"
  shows "1 / 1000 \<le> \<bar>luminance r g b - of_int t\<bar>"
proof -
  define n :: int where "n = 299 * int r + 587 * int g + 114 * int b - 1000 * t"
  have e: "luminance r g b - of_int t = of_int n / 1000"
    by (simp add: luminance_def n_def field_simps)
  with assms have "n \<noteq> 0" by auto
  then have "1 \<le> \<bar>n\<bar>" by linarith
  then have "(1::rat) \<le> \<bar>of_int n\<bar>" by (metis of_int_abs of_int_1 of_int_le_iff)
  then show ?thesis unfolding e by simp
qed

lemma isOccupied_iff:
  assumes "r \<le> 255" "g \<le> 255" "b \<le> 255" and ne: "luminance r g b \<noteq> of_int t"
  shows "isOccupied r g b a t \<longleftrightarrow> a > 128 \<and> luminance r g b < of_int t"
proof -
  from gray_close [OF assms(1-3)] have c: "\<bar>gray r g b - luminance r g b\<bar> < 1 / 1000" .
  from luminance_gap [OF ne] have "1 / 1000 \<le> \<bar>luminance r g b - of_int t\<bar>" .
  with c have "gray r g b < of_int t \<longleftrightarrow> luminance r g b < of_int t" by linarith
  then show ?thesis by (simp add: isOccupied_def)
qed

lemma mark_row:
  assumes "rectangular g width height" and "y < height" and "\<forall>x \<in> set xs. x < width"
  shows "\<exists>g'. foldE (\<lambda>g x. if P x then writeCell g y x else Inr g) xs g = Inr g' \<and>
     rectangular g' width height \<and>
     (\<forall>y' < height. \<forall>x' < width. g' ! y' ! x' = (g ! y' ! x' \<or> (y' = y \<and> x' \<in> set xs \<and> P x')))"
  using assms
proof (induction xs arbitrary: g)
  case Nil
  then show ?case by simp
next
  case (Cons x xs)
  from Cons.prems have x: "x < width" and xs: "\<forall>x \<in> set xs. x < width" by simp_all
  show ?case
  proof (cases "P x")
    case False
    from Cons.IH [OF Cons.prems(1,2) xs] False show ?thesis by auto
  next
    case True
    let ?g1 = "g[y := (g ! y)[x := True]]"
    have w: "writeCell g y x = Inr ?g1" by (rule writeCell_rect [OF Cons.prems(1,2) x])
    have r1: "rectangular ?g1 width height" by (rule rectangular_update [OF Cons.prems(1,2)])
    from Cons.IH [OF r1 Cons.prems(2) xs] obtain g' where
      f: "foldE (\<lambda>g x. if P x then writeCell g y x else Inr g) xs ?g1 = Inr g'"
      and r': "rectangular g' width height"
      and c: "\<forall>y' < height. \<forall>x' < width.
          g' ! y' ! x' = (?g1 ! y' ! x' \<or> (y' = y \<and> x' \<in> set xs \<and> P x'))"
      by blast
    have "\<forall>y' < height. \<forall>x' < width.
        g' ! y' ! x' = (g ! y' ! x' \<or> (y' = y \<and> x' \<in> set (x # xs) \<and> P x'))"
    proof (intro allI impI)
      fix y' x' assume b: "y' < height" "x' < width"
      from c b have "g' ! y' ! x' = (?g1 ! y' ! x' \<or> (y' = y \<and> x' \<in> set xs \<and> P x'))" by blast
      also have "?g1 ! y' ! x' = (if y' = y \<and> x' = x then True else g ! y' ! x')"
        by (rule nth_update2 [OF Cons.prems(1,2) x b])
      finally show "g' ! y' ! x' = (g ! y' ! x' \<or> (y' = y \<and> x' \<in> set (x # xs) \<and> P x'))"
        using True by auto
    qed
    with f r' w True show ?thesis by auto
  qed
qed

lemma mark_rows:
  assumes "rectangular g width height" and "\<forall>y \<in> set ys. y < height"
  shows "\<exists>g'. foldE (\<lambda>g y. foldE (\<lambda>g x. if P y x then writeCell g y x else Inr g) [0..<width] g)
        ys g = Inr g' \<and>
     rectangular g' width height \<and>
     (\<forall>y' < height. \<forall>x' < width. g' ! y' ! x' = (g ! y' ! x' \<or> (y' \<in> set ys \<and> P y' x')))"
  using assms
proof (induction ys arbitrary: g)
  case Nil
  then show ?case by simp
next
  case (Cons y ys)
  from Cons.prems have y: "y < height" and ys: "\<forall>y \<in> set ys. y < height" by simp_all
  have "\<forall>x \<in> set [0..<width]. x < width" by simp
  from mark_row [OF Cons.prems(1) y this, of "P y"] obtain g1 where
    f1: "foldE (\<lambda>g x. if P y x then writeCell g y x else Inr g) [0..<width] g = Inr g1"
    and r1: "rectangular g1 width height"
    and c1: "\<forall>y' < height. \<forall>x' < width.
        g1 ! y' ! x' = (g ! y' ! x' \<or> (y' = y \<and> x' \<in> set [0..<width] \<and> P y x'))"
    by blast
  from Cons.IH [OF r1 ys] obtain g' where
    f: "foldE (\<lambda>g y. foldE (\<lambda>g x. if P y x then writeCell g y x else Inr g) [0..<width] g)
        ys g1 = Inr g'"
    and r': "rectangular g' width height"
    and c: "\<forall>y' < height. \<forall>x' < width. g' ! y' ! x' = (g1 ! y' ! x' \<or> (y' \<in> set ys \<and> P y' x'))"
    by blast
  have "\<forall>y' < height. \<forall>x' < width.
      g' ! y' ! x' = (g ! y' ! x' \<or> (y' \<in> set (y # ys) \<and> P y' x'))"
    using c c1 by auto
  with f f1 r' show ?case by auto
qed

lemma quantize_cells:
  assumes "0 < stitchesX" and "0 < stitchesYOf stitchesX aspectRatio"
  shows "\<exists>grid. quantize pixels stitchesX aspectRatio thresh = Inr grid \<and>
     rectangular grid stitchesX (stitchesYOf stitchesX aspectRatio) \<and>
     (\<forall>y < stitchesYOf stitchesX aspectRatio. \<forall>x < stitchesX.
        grid ! y ! x = cellOccupied pixels stitchesX thresh y x)"
proof -
  let ?h = "stitchesYOf stitchesX aspectRatio"
  have r: "rectangular (replicate ?h (replicate stitchesX False)) stitchesX ?h"
    by (simp add: rectangular_def)
  have "\<forall>y \<in> set [0..<?h]. y < ?h" by simp
  from mark_rows [OF r this, of "cellOccupied pixels stitchesX thresh"] assms
  show ?thesis by (simp add: quantize_def getImageData_def Let_def)
qed


lemma cellOccupied_samples:
  assumes "(y * stitchesX + x) * 4 + 3 < length imageData"
  shows "cellOccupied imageData stitchesX thresh y x =
     isOccupied (unat (imageData ! ((y * stitchesX + x) * 4)))
       (unat (imageData ! ((y * stitchesX + x) * 4 + 1)))
       (unat (imageData ! ((y * stitchesX + x) * 4 + 2)))
       (unat (imageData ! ((y * stitchesX + x) * 4 + 3))) thresh"
  using assms by (simp add: cellOccupied_def sample_def Let_def)

lemma unat_byte: "unat (w :: 8 word) \<le> 255"
  using unsigned_less [of w, where 'a = nat] by simp

lemma fl_one: "fl 1 = 1"
  by code_simp

lemma gray_128: "gray 128 128 128 = 9007199254740991 / 70368744177664"
proof -
  have m1: "fl (128 * (5386305154335113 / 18014398509481984))
      = 5386305154335113 / 140737488355328" by code_simp
  have m2: "fl (128 * (2643612981266481 / 4503599627370496))
      = 2643612981266481 / 35184372088832" by code_simp
  have m3: "fl (128 * (8214565720323785 / 72057594037927936))
      = 8214565720323785 / 562949953421312" by code_simp
  have a1: "fl (5386305154335113 / 140737488355328 + 2643612981266481 / 35184372088832)
      = 3990189269850259 / 35184372088832" by code_simp
  have a2: "fl (3990189269850259 / 35184372088832 + 8214565720323785 / 562949953421312)
      = 9007199254740991 / 70368744177664" by code_simp
  show ?thesis
    unfolding gray_def of_nat_numeral fl_299 fl_587 fl_114 m1 m2 m3 a1 a2 by (rule refl)
qed

lemma gray_255: "gray 255 255 255 = 255"
proof -
  have m1: "fl (255 * (5386305154335113 / 18014398509481984))
      = 5365264899825991 / 70368744177664" by code_simp
  have m2: "fl (255 * (2643612981266481 / 4503599627370496))
      = 2633286368058409 / 17592186044416" by code_simp
  have m3: "fl (255 * (8214565720323785 / 72057594037927936))
      = 4091238786489385 / 140737488355328" by code_simp
  have a1: "fl (5365264899825991 / 70368744177664 + 2633286368058409 / 17592186044416)
      = 3974602593014907 / 17592186044416" by code_simp
  have a2: "fl (3974602593014907 / 17592186044416 + 4091238786489385 / 140737488355328)
      = 255" by code_simp
  show ?thesis
    unfolding gray_def of_nat_numeral fl_299 fl_587 fl_114 m1 m2 m3 a1 a2 by (rule refl)
qed




text \<open>
  C5, as the code has it. For a sample of byte channels the grid cell is occupied
  exactly when alpha is above 128 and the sum \<open>r * 0.299 + g * 0.587 + b * 0.114\<close>, as
  the doubles give it, is strictly below the threshold. For an integer threshold that
  the exact luminance \<open>0.299 R + 0.587 G + 0.114 B\<close> does not equal, that is the case
  exactly when alpha is above 128 and the exact luminance is below the threshold; so a
  cell with alpha 200 and luminance one below the threshold is occupied. Where the
  exact luminance equals the threshold, the cell is occupied only if the rounding has
  left the sum below it.
\<close>

theorem quantizer_cell_occupied:
  assumes y: "y < stitchesYOf stitchesX aspectRatio" and x: "x < stitchesX"
    and i: "i = (y * stitchesX + x) * 4" and len: "i + 3 < length pixels"
    and r: "r = unat (pixels ! i)" and g: "g = unat (pixels ! (i + 1))"
    and b: "b = unat (pixels ! (i + 2))" and a: "a = unat (pixels ! (i + 3))"
  shows "\<exists>grid. quantize pixels stitchesX aspectRatio thresh = Inr grid \<and>
     (grid ! y ! x \<longleftrightarrow> a > 128 \<and> gray r g b < of_int thresh) \<and>
     (luminance r g b \<noteq> of_int thresh \<longrightarrow>
        (grid ! y ! x \<longleftrightarrow> a > 128 \<and> luminance r g b < of_int thresh))"
proof -
  from x y have "0 < stitchesX" and "0 < stitchesYOf stitchesX aspectRatio" by simp_all
  from quantize_cells [OF this, of pixels thresh] y x obtain grid where
    q: "quantize pixels stitchesX aspectRatio thresh = Inr grid"
    and c: "grid ! y ! x = cellOccupied pixels stitchesX thresh y x"
    by blast
  have o: "grid ! y ! x = isOccupied r g b a thresh"
    using len unfolding i c r g b a by (simp add: cellOccupied_samples)
  have 1: "grid ! y ! x \<longleftrightarrow> a > 128 \<and> gray r g b < of_int thresh"
    unfolding o by (simp add: isOccupied_def)
  have bytes: "r \<le> 255" "g \<le> 255" "b \<le> 255" by (simp_all add: r g b unat_byte)
  have 2: "grid ! y ! x \<longleftrightarrow> a > 128 \<and> luminance r g b < of_int thresh"
    if ne: "luminance r g b \<noteq> of_int thresh"
    unfolding o by (rule isOccupied_iff [OF bytes ne])
  from q 1 2 show ?thesis by blast
qed

theorem quantizer_cell_occupied_witness:
  "0 < stitchesYOf 1 1 \<and>
   luminance 127 127 127 = 128 - 1 \<and>
   (\<exists>grid. quantize [127, 127, 127, 200] 1 1 128 = Inr grid \<and> grid ! 0 ! 0) \<and>
   luminance 255 255 255 = 255 \<and>
   (\<exists>grid. quantize [255, 255, 255, 200] 1 1 255 = Inr grid \<and> \<not> grid ! 0 ! 0) \<and>
   (\<exists>grid. quantize [0, 0, 0, 128] 1 1 128 = Inr grid \<and> \<not> grid ! 0 ! 0)"
proof -
  have h: "0 < stitchesYOf 1 1" by (simp add: stitchesYOf_def fl_one)
  have l1: "luminance 127 127 127 = 128 - 1" and l2: "luminance 255 255 255 = 255"
    by (simp_all add: luminance_def)
  have "\<exists>grid. quantize [127, 127, 127, 200] 1 1 128 = Inr grid \<and>
     (grid ! 0 ! 0 \<longleftrightarrow> (200::nat) > 128 \<and> gray 127 127 127 < of_int 128) \<and>
     (luminance 127 127 127 \<noteq> of_int 128 \<longrightarrow>
        (grid ! 0 ! 0 \<longleftrightarrow> (200::nat) > 128 \<and> luminance 127 127 127 < of_int 128))"
    by (rule quantizer_cell_occupied [OF h, where x = 0 and i = 0]) simp_all
  then obtain grid1 where q1: "quantize [127, 127, 127, 200] 1 1 128 = Inr grid1"
    and c1: "luminance 127 127 127 \<noteq> of_int 128 \<longrightarrow>
        (grid1 ! 0 ! 0 \<longleftrightarrow> (200::nat) > 128 \<and> luminance 127 127 127 < of_int 128)"
    by blast
  from c1 have "grid1 ! 0 ! 0" unfolding l1 by simp
  with q1 have 1: "\<exists>grid. quantize [127, 127, 127, 200] 1 1 128 = Inr grid \<and> grid ! 0 ! 0"
    by blast
  have "\<exists>grid. quantize [255, 255, 255, 200] 1 1 255 = Inr grid \<and>
     (grid ! 0 ! 0 \<longleftrightarrow> (200::nat) > 128 \<and> gray 255 255 255 < of_int 255) \<and>
     (luminance 255 255 255 \<noteq> of_int 255 \<longrightarrow>
        (grid ! 0 ! 0 \<longleftrightarrow> (200::nat) > 128 \<and> luminance 255 255 255 < of_int 255))"
    by (rule quantizer_cell_occupied [OF h, where x = 0 and i = 0]) simp_all
  then obtain grid2 where q2: "quantize [255, 255, 255, 200] 1 1 255 = Inr grid2"
    and c2: "grid2 ! 0 ! 0 \<longleftrightarrow> (200::nat) > 128 \<and> gray 255 255 255 < of_int 255"
    by blast
  from c2 have "\<not> grid2 ! 0 ! 0" unfolding gray_255 by simp
  with q2 have 2: "\<exists>grid. quantize [255, 255, 255, 200] 1 1 255 = Inr grid \<and> \<not> grid ! 0 ! 0"
    by blast
  have "\<exists>grid. quantize [0, 0, 0, 128] 1 1 128 = Inr grid \<and>
     (grid ! 0 ! 0 \<longleftrightarrow> (128::nat) > 128 \<and> gray 0 0 0 < of_int 128) \<and>
     (luminance 0 0 0 \<noteq> of_int 128 \<longrightarrow>
        (grid ! 0 ! 0 \<longleftrightarrow> (128::nat) > 128 \<and> luminance 0 0 0 < of_int 128))"
    by (rule quantizer_cell_occupied [OF h, where x = 0 and i = 0]) simp_all
  then obtain grid3 where q3: "quantize [0, 0, 0, 128] 1 1 128 = Inr grid3"
    and c3: "grid3 ! 0 ! 0 \<longleftrightarrow> (128::nat) > 128 \<and> gray 0 0 0 < of_int 128"
    by blast
  from c3 have "\<not> grid3 ! 0 ! 0" by simp
  with q3 have 3: "\<exists>grid. quantize [0, 0, 0, 128] 1 1 128 = Inr grid \<and> \<not> grid ! 0 ! 0"
    by blast
  from h l1 l2 1 2 3 show ?thesis by blast
qed

text \<open>
  Where the exact luminance equals the threshold the result is decided by rounding:
  for \<open>R = G = B = 128\<close> the code computes \<open>gray = 128 - 2^-46\<close>, which is below the
  threshold 128, and the cell is occupied.
\<close>

theorem threshold_boundary_occupied:
  "luminance 128 128 128 = 128 \<and> quantize [128, 128, 128, 200] 1 1 128 = Inr [[True]]"
proof -
  have l: "luminance 128 128 128 = 128" by (simp add: luminance_def)
  have "isOccupied 128 128 128 200 128" by (simp add: isOccupied_def gray_128)
  then have c: "cellOccupied [128, 128, 128, 200] 1 128 0 0"
    by (simp add: cellOccupied_def sample_def)
  have h: "stitchesYOf 1 1 = 1" by (simp add: stitchesYOf_def fl_one)
  have "quantize [128, 128, 128, 200] 1 1 128 = Inr [[True]]"
    unfolding quantize_def h Let_def using c by (simp add: getImageData_def writeCell_def)
  with l show ?thesis by simp
qed



section \<open>Rasterizer against VectorExporter\<close>

text \<open>
  C7, where the code departs from it. For a grid of 16 by 16 cells (the smallest the
  slider allows, on a square image) with the one occupied cell \<open>(0, 0)\<close>, an outline
  offset of 1 and a canvas of 160 by 160 pixels, both renderers stroke the same closed
  path with the same width 2 and fill the same circle, but the Rasterizer joins the
  lines with \<open>miter\<close> and the VectorExporter with \<open>round\<close>.
\<close>

theorem svg_join_differs:
  "drawPattern ((True # replicate 15 False) # replicate 15 (replicate 16 False))
       16 16 160 160 circle 1 ''#000000''
     = Inr [Stroke ''#000000'' 2 Miter 4 [(0, 0), (10, 0), (10, 10), (0, 10)],
            FillArc ''#000000'' 5 5 (10 / 3)] \<and>
   handleDownloadSvg ((True # replicate 15 False) # replicate 15 (replicate 16 False))
       16 16 circle 1 ''#000000''
     = Inr \<lparr>svgWidth = 160, svgHeight = 160,
            svgElements = [SvgPath [(0, 0), (10, 0), (10, 10), (0, 10)] ''#000000'' 2 Round,
                           SvgCircle 5 5 (10 / 3) ''#000000'']\<rparr>"
  by code_simp

end
